theory Spec2Isabelle
  imports Complex_Main
begin

section \<open>The voice-command matcher of TalesCam-AI\<close>

text \<open>
  This theory embeds the functions \<open>levenshtein\<close>, \<open>soundsSimilar\<close> and
  \<open>findBestMatch\<close> of the voice-command hook, together with the table
  \<open>phoneticSimilarWordsMap\<close>, and proves properties of them.

  Modelling conventions.
  \<^item> A JavaScript string is a list of code units; the model uses \<^typ>\<open>string\<close>, whose
    characters are the code units below 256 (ASCII and Latin-1). On these
    \<open>toLowerCase\<close> keeps the length of a string.
  \<^item> A JavaScript number that holds a score is modelled as an exact rational
    (\<^typ>\<open>rat\<close>); string lengths and edit distances are natural numbers. Rounding of
    binary floating point is not modelled.
  \<^item> A callback is a value of an arbitrary type \<open>'cb\<close>; the matcher never calls it.
  \<^item> A \<open>TypeError\<close> raised by the source is the value \<open>Inl TypeError\<close>.
  \<^item> The calls of \<open>console.log\<close> are left out.
\<close>

subsection \<open>String operations of the host language\<close>

definition toLowerChar :: "char \<Rightarrow> char" where
  "toLowerChar c =
     (let n = (of_char c :: nat) in
      if (65 \<le> n \<and> n \<le> 90) \<or> (192 \<le> n \<and> n \<le> 222 \<and> n \<noteq> 215)
      then char_of (n + 32) else c)"

definition toLowerCase :: "string \<Rightarrow> string" where
  "toLowerCase s = map toLowerChar s"

text \<open>The white space and line terminators that \<open>trim\<close> removes, below code 256.\<close>

definition isWhiteSpace :: "char \<Rightarrow> bool" where
  "isWhiteSpace c = ((of_char c :: nat) \<in> {9, 10, 11, 12, 13, 32, 160})"

definition trim :: "string \<Rightarrow> string" where
  "trim s = rev (dropWhile isWhiteSpace (rev (dropWhile isWhiteSpace s)))"

text \<open>\<open>s.split(' ')\<close>: the pieces between single spaces; never the empty array.\<close>

fun splitSpaces :: "string \<Rightarrow> string list" where
  "splitSpaces [] = [[]]"
| "splitSpaces (c # cs) =
     (if c = CHR '' '' then [] # splitSpaces cs
      else (case splitSpaces cs of [] \<Rightarrow> [[c]] | w # ws \<Rightarrow> (c # w) # ws))"

definition startsWith :: "string \<Rightarrow> string \<Rightarrow> bool" where
  "startsWith s p = (take (length p) s = p)"

definition endsWith :: "string \<Rightarrow> string \<Rightarrow> bool" where
  "endsWith s p = (length p \<le> length s \<and> drop (length s - length p) s = p)"

text \<open>
  \<open>s.lastIndexOf(w)\<close>: the greatest index at which \<open>w\<close> occurs in \<open>s\<close>, or \<open>-1\<close>.
  \<open>lastIndexFrom s w i\<close> searches downwards from index \<open>i\<close>.
\<close>

fun lastIndexFrom :: "string \<Rightarrow> string \<Rightarrow> nat \<Rightarrow> int" where
  "lastIndexFrom s w 0 = (if startsWith s w then 0 else - 1)"
| "lastIndexFrom s w (Suc i) =
     (if startsWith (drop (Suc i) s) w then int (Suc i) else lastIndexFrom s w i)"

definition lastIndexOf :: "string \<Rightarrow> string \<Rightarrow> int" where
  "lastIndexOf s w =
     (if length s < length w then - 1 else lastIndexFrom s w (length s - length w))"

text \<open>\<open>s.substring(0, k)\<close>: a negative end index counts as 0.\<close>

definition substringTo :: "string \<Rightarrow> int \<Rightarrow> string" where
  "substringTo s k = take (nat k) s"

text \<open>\<open>s.substring(n)\<close>.\<close>

definition substringFrom :: "string \<Rightarrow> nat \<Rightarrow> string" where
  "substringFrom s n = drop n s"

subsection \<open>Edit distance\<close>

text \<open>
  The source fills a matrix with one row for each prefix of \<open>b\<close> and one column for
  each prefix of \<open>a\<close>. \<open>fillRow bc a prev left\<close> computes the cells of one row after
  its first: \<open>prev\<close> is the row above from the cell to the upper left on, \<open>left\<close> is
  the cell to the left.
\<close>

fun fillRow :: "char \<Rightarrow> string \<Rightarrow> nat list \<Rightarrow> nat \<Rightarrow> nat list" where
  "fillRow bc [] prev left = []"
| "fillRow bc (ac # as) prev left =
     (case prev of
        d # u # rest \<Rightarrow>
          (let v = (if bc = ac then d else min (d + 1) (min (left + 1) (u + 1)))
           in v # fillRow bc as (u # rest) v)
      | _ \<Rightarrow> [])"

text \<open>\<open>matrixRows a bs i prev\<close>: the last row, when row \<open>i\<close> is the next one to fill.\<close>

fun matrixRows :: "string \<Rightarrow> string \<Rightarrow> nat \<Rightarrow> nat list \<Rightarrow> nat list" where
  "matrixRows a [] i prev = prev"
| "matrixRows a (bc # bs) i prev = matrixRows a bs (Suc i) (i # fillRow bc a prev i)"

definition levenshtein :: "string \<Rightarrow> string \<Rightarrow> nat" where
  "levenshtein a b =
     (if length a = 0 then length b
      else if length b = 0 then length a
      else last (matrixRows a b 1 [0..<Suc (length a)]))"

subsection \<open>The phonetic table\<close>

definition phoneticSimilarWordsMap :: "(string \<times> string list) list" where
  "phoneticSimilarWordsMap = [
    (''photo'', [''photo'', ''foto'', ''shot'', ''pot'', ''plot'', ''pro'', ''show'', ''goes'', ''those'', ''close'', ''flows'']),
    (''take a photo'', [''take a photo'', ''fake a photo'', ''make a photo'', ''cake a photo'', ''bake a photo'']),
    (''capture'', [''capture'', ''captor'', ''rapture'', ''chapter'', ''cap tour'', ''trap door'', ''trap tour'']),
    (''snap'', [''snap'', ''snapped'', ''snapchat'', ''clap'', ''slap'', ''trap'', ''map'', ''cap'', ''lap'', ''gap'']),
    (''home'', [''home'', ''hole'', ''hose'', ''hold'', ''hope'', ''cope'', ''cope'', ''know'', ''flow'', ''slow'']),
    (''main screen'', [''main screen'', ''man screen'', ''men screen'', ''mine screen'', ''mean screen'']),
    (''start over'', [''start over'', ''starp over'', ''start hover'', ''heart cover'', ''cart rover'']),
    (''back'', [''back'', ''pack'', ''track'', ''hack'', ''crack'', ''stack'', ''lack'', ''sack'', ''tack'']),
    (''next'', [''next'', ''text'', ''flex'', ''tests'', ''best'', ''rest'', ''gets'', ''wrecks'', ''decks'']),
    (''skip'', [''skip'', ''ship'', ''slip'', ''grip'', ''trip'', ''flip'', ''nip'', ''lip'', ''zip'', ''rip'']),
    (''auto'', [''auto'', ''otto'', ''out to'', ''out two'', ''ought to'', ''ocho'']),
    (''reset'', [''reset'', ''re-set'', ''re set'', ''preset'', ''regret'', ''re bet'', ''re get'']),
    (''raised'', [''raised'', ''rased'', ''rays'', ''raise'', ''raze'', ''rase'', ''rease'', ''race'', ''re set'']),
    (''retry'', [''retry'', ''re try'', ''re try'', ''re tie'', ''re cry'']),
    (''try again'', [''try again'', ''cry again'', ''tie again'', ''fly again'', ''die again'', ''lie again'']),
    (''check'', [''check'', ''tech'', ''deck'', ''neck'', ''beck'', ''peck'', ''reck'', ''wreck'', ''sec'', ''shek'']),
    (''enable'', [''enable'', ''in able'', ''in cable'', ''unstable'', ''in table'', ''in label'']),
    (''uncheck'', [''uncheck'', ''un tech'', ''on check'', ''un deck'', ''an check'', ''on tech'']),
    (''disable'', [''disable'', ''dis able'', ''dis cable'', ''this able'', ''dis table'']),
    (''generate'', [''generate'', ''general late'', ''general gate'', ''gen a rate'', ''general eight'']),
    (''confirm'', [''confirm'', ''con firm'', ''con form'', ''con farm'', ''can form'', ''con fern'']),
    (''save story'', [''save story'', ''safe story'', ''save glory'', ''safe glory'', ''have story'']),
    (''download'', [''download'', ''down load'', ''dawn load'', ''don load'', ''on load'']),
    (''upload'', [''upload'', ''up load'', ''up road'', ''a prod'', ''up broad'']),
    (''upload image'', [''upload image'', ''up load image'', ''upload im age'', ''upload imige'']),
    (''beginning'', [''beginning'', ''begin in'', ''begin then'', ''beginning'', ''begining'']),
    (''start'', [''start'', ''starp'', ''heart'', ''cart'', ''part'', ''mart'']),
    (''middle'', [''middle'', ''muddle'', ''meddle'', ''riddle'', ''fiddle'', ''piddle'']),
    (''end'', [''end'', ''and'', ''and'', ''land'', ''hand'', ''band'', ''stand'', ''sand'']),
    (''and'', [''and'', ''end'', ''land'', ''hand'', ''band'', ''stand'', ''sand''])]"

datatype error = TypeError

text \<open>
  The table is a plain object, so reading a property of it also finds the properties
  it inherits from \<open>Object.prototype\<close>. None of them is an array: calling
  \<open>includes\<close> or \<open>some\<close> on one raises a \<open>TypeError\<close>.
\<close>

definition objectPrototypeNames :: "string list" where
  "objectPrototypeNames =
     [''constructor'', ''__defineGetter__'', ''__defineSetter__'', ''hasOwnProperty'',
      ''__lookupGetter__'', ''__lookupSetter__'', ''isPrototypeOf'',
      ''propertyIsEnumerable'', ''toString'', ''valueOf'', ''__proto__'',
      ''toLocaleString'']"

datatype property = Undefined | Words "string list" | Inherited

definition getProperty :: "string \<Rightarrow> property" where
  "getProperty k =
     (case map_of phoneticSimilarWordsMap k of
        Some ws \<Rightarrow> Words ws
      | None \<Rightarrow> if k \<in> set objectPrototypeNames then Inherited else Undefined)"

definition objectKeys :: "string list" where
  "objectKeys = map fst phoneticSimilarWordsMap"

text \<open>
  \<open>phoneticSimilarWordsMap[k] && phoneticSimilarWordsMap[k].includes(w)\<close>, read as a
  condition.
\<close>

definition includesAt :: "string \<Rightarrow> string \<Rightarrow> error + bool" where
  "includesAt k w =
     (case getProperty k of
        Undefined \<Rightarrow> Inr False
      | Words ws \<Rightarrow> Inr (w \<in> set ws)
      | Inherited \<Rightarrow> Inl TypeError)"

text \<open>
  \<open>Object.keys(phoneticSimilarWordsMap).find(key =>
  phoneticSimilarWordsMap[key].some(word => word === w))\<close>.
\<close>

definition findMainCommand :: "string \<Rightarrow> string option" where
  "findMainCommand w =
     find (\<lambda>key. case getProperty key of Words ws \<Rightarrow> w \<in> set ws | _ \<Rightarrow> False) objectKeys"

text \<open>
  \<open>mainCommand && phoneticSimilarWordsMap[mainCommand] &&
  phoneticSimilarWordsMap[mainCommand].includes(w2)\<close> for the main command of \<open>w1\<close>.
\<close>

definition viaMainCommand :: "string \<Rightarrow> string \<Rightarrow> error + bool" where
  "viaMainCommand w1 w2 =
     (case findMainCommand w1 of
        None \<Rightarrow> Inr False
      | Some key \<Rightarrow> if key = [] then Inr False else includesAt key w2)"

definition soundsSimilar :: "string \<Rightarrow> string \<Rightarrow> error + bool" where
  "soundsSimilar word1 word2 =
     (if word1 = word2 then Inr True
      else case includesAt word1 word2 of
        Inl e \<Rightarrow> Inl e
      | Inr True \<Rightarrow> Inr True
      | Inr False \<Rightarrow>
          (case viaMainCommand word1 word2 of
             Inl e \<Rightarrow> Inl e
           | Inr True \<Rightarrow> Inr True
           | Inr False \<Rightarrow>
               (case viaMainCommand word2 word1 of
                  Inl e \<Rightarrow> Inl e
                | Inr True \<Rightarrow> Inr True
                | Inr False \<Rightarrow> Inr False)))"

text \<open>\<open>xs.some(p)\<close> for a test that may raise: it stops at the first hit or error.\<close>

fun some :: "('a \<Rightarrow> error + bool) \<Rightarrow> 'a list \<Rightarrow> error + bool" where
  "some p [] = Inr False"
| "some p (x # xs) =
     (case p x of
        Inl e \<Rightarrow> Inl e
      | Inr True \<Rightarrow> Inr True
      | Inr False \<Rightarrow> some p xs)"

subsection \<open>The matcher\<close>

datatype commandPhrases = Phrase string | Phrases "string list"

text \<open>
  A \<open>Command\<close> of \<open>types.ts\<close>. Its optional flags \<open>isFuzzyMatch\<close>, \<open>matchInterim\<close> and
  \<open>bestMatchOnly\<close> are never read by the matcher and are left out.
\<close>

datatype 'cb Command = Command (command: commandPhrases) (commandCallback: 'cb)

record 'cb BestMatch =
  score :: rat
  callback :: "'cb option"
  args :: "string list"

definition threshold :: rat where
  "threshold = 7 / 10"

text \<open>\<open>Array.isArray(command) ? command : [command]\<close>.\<close>

fun phrasesOf :: "commandPhrases \<Rightarrow> string list" where
  "phrasesOf (Phrase p) = [p]"
| "phrasesOf (Phrases ps) = ps"

text \<open>The transcript after lower-casing, trimming and the collapse of a doubled word.\<close>

definition processTranscript :: "string \<Rightarrow> string" where
  "processTranscript transcript =
     (let processedTranscript = trim (toLowerCase transcript);
          words = splitSpaces processedTranscript
      in if length words = 2 \<and> words ! 0 = words ! 1 then words ! 0
         else processedTranscript)"

text \<open>
  The suffix branch looks for a main command whose list holds the whole phrase
  (asterisk included) and then compares the list with the whole transcript.
\<close>

definition suffixIsMatch :: "string \<Rightarrow> string \<Rightarrow> string \<Rightarrow> error + bool" where
  "suffixIsMatch lowerTranscript lowerPhrase suffix =
     (if endsWith lowerTranscript suffix then Inr True
      else case findMainCommand lowerPhrase of
        None \<Rightarrow> Inr False
      | Some mainCommand \<Rightarrow>
          if mainCommand = [] then Inr False
          else (case getProperty mainCommand of
                  Undefined \<Rightarrow> Inr False
                | Words ws \<Rightarrow> some (\<lambda>word. soundsSimilar word lowerTranscript) ws
                | Inherited \<Rightarrow> Inl TypeError))"

text \<open>
  The phonetic test of a literal phrase that differs from the transcript, in the two
  steps of the source: first the list stored under the phrase itself, then the first
  word of the list of the main command of the phrase. The main command is a key of the
  table, so its property is a list that holds the phrase; the other cases of the second
  lookup stand for \<open>undefined\<close> as first word.
\<close>

definition phraseListMatch :: "string \<Rightarrow> string \<Rightarrow> error + bool" where
  "phraseListMatch lowerTranscript lowerPhrase =
     (case getProperty lowerPhrase of
        Undefined \<Rightarrow> Inr False
      | Words ws \<Rightarrow> some (\<lambda>word. soundsSimilar word lowerTranscript) ws
      | Inherited \<Rightarrow> Inl TypeError)"

definition mainCommandMatch :: "string \<Rightarrow> string \<Rightarrow> error + bool" where
  "mainCommandMatch lowerTranscript lowerPhrase =
     (case findMainCommand lowerPhrase of
        None \<Rightarrow> Inr False
      | Some mainCommand \<Rightarrow>
          if mainCommand = [] then Inr False
          else (case getProperty mainCommand of
                  Words (w # _) \<Rightarrow> soundsSimilar w lowerTranscript
                | _ \<Rightarrow> Inr False))"

definition literalIsMatch :: "string \<Rightarrow> string \<Rightarrow> error + bool" where
  "literalIsMatch lowerTranscript lowerPhrase =
     (case phraseListMatch lowerTranscript lowerPhrase of
        Inl e \<Rightarrow> Inl e
      | Inr True \<Rightarrow> Inr True
      | Inr False \<Rightarrow> mainCommandMatch lowerTranscript lowerPhrase)"

text \<open>
  The candidate of one phrase: its score and its arguments, or nothing when the
  phrase does not apply. \<open>bestScore\<close> is the score of the best match so far, which
  the universal wildcard reads.
\<close>

definition candidate ::
  "rat \<Rightarrow> string \<Rightarrow> string \<Rightarrow> string \<Rightarrow> error + (rat \<times> string list) option" where
  "candidate bestScore transcript lowerTranscript phrase =
     (let lowerPhrase = toLowerCase phrase in
      if lowerPhrase = ''*'' then
        Inr (Some (if bestScore > 1 / 2 then 1 / 10 else 81 / 100, [transcript]))
      else if endsWith lowerPhrase ''*'' then
        (let prefix = trim (butlast lowerPhrase) in
         if startsWith lowerTranscript prefix then
           (let arg = trim (substringFrom transcript (length prefix)) in
            if arg \<noteq> [] then Inr (Some (9 / 10 + of_nat (length prefix) / 100, [arg]))
            else Inr None)
         else Inr None)
      else if startsWith lowerPhrase ''*'' then
        (let suffix = trim (drop 1 lowerPhrase);
             words = splitSpaces lowerTranscript;
             lastWord = last words
         in case suffixIsMatch lowerTranscript lowerPhrase suffix of
              Inl e \<Rightarrow> Inl e
            | Inr False \<Rightarrow> Inr None
            | Inr True \<Rightarrow>
                (let arg = trim (substringTo transcript (lastIndexOf lowerTranscript lastWord))
                 in Inr (Some (9 / 10 + of_nat (length suffix) / 100, [arg]))))
      else if lowerTranscript = lowerPhrase then Inr (Some (1, []))
      else
        (case literalIsMatch lowerTranscript lowerPhrase of
           Inl e \<Rightarrow> Inl e
         | Inr True \<Rightarrow>
             (let lengthDiff = \<bar>int (length lowerTranscript) - int (length lowerPhrase)\<bar>
              in Inr (Some (8 / 10 - of_int lengthDiff * (5 / 100), [])))
         | Inr False \<Rightarrow>
             (let distance = levenshtein lowerTranscript lowerPhrase
              in Inr (Some (1 - of_nat distance
                                / of_nat (max (length lowerTranscript) (length lowerPhrase)),
                            [])))))"

text \<open>One pass of the inner loop body: score the phrase, keep it when it is strictly better.\<close>

definition tryPhrase ::
  "string \<Rightarrow> string \<Rightarrow> 'cb \<Rightarrow> 'cb BestMatch \<Rightarrow> string \<Rightarrow> error + 'cb BestMatch" where
  "tryPhrase transcript lowerTranscript cb bestMatch phrase =
     (case candidate (score bestMatch) transcript lowerTranscript phrase of
        Inl e \<Rightarrow> Inl e
      | Inr None \<Rightarrow> Inr bestMatch
      | Inr (Some (s, as)) \<Rightarrow>
          if s > score bestMatch
          then Inr \<lparr>score = s, callback = Some cb, args = as\<rparr>
          else Inr bestMatch)"

fun phraseLoop ::
  "string \<Rightarrow> string \<Rightarrow> 'cb \<Rightarrow> 'cb BestMatch \<Rightarrow> string list \<Rightarrow> error + 'cb BestMatch" where
  "phraseLoop transcript lowerTranscript cb bestMatch [] = Inr bestMatch"
| "phraseLoop transcript lowerTranscript cb bestMatch (phrase # phrases) =
     (case tryPhrase transcript lowerTranscript cb bestMatch phrase of
        Inl e \<Rightarrow> Inl e
      | Inr bestMatch' \<Rightarrow> phraseLoop transcript lowerTranscript cb bestMatch' phrases)"

fun commandLoop ::
  "string \<Rightarrow> string \<Rightarrow> 'cb BestMatch \<Rightarrow> 'cb Command list \<Rightarrow> error + 'cb BestMatch" where
  "commandLoop transcript lowerTranscript bestMatch [] = Inr bestMatch"
| "commandLoop transcript lowerTranscript bestMatch (c # commands) =
     (case phraseLoop transcript lowerTranscript (commandCallback c) bestMatch
             (phrasesOf (command c)) of
        Inl e \<Rightarrow> Inl e
      | Inr bestMatch' \<Rightarrow> commandLoop transcript lowerTranscript bestMatch' commands)"

definition initialBestMatch :: "'cb BestMatch" where
  "initialBestMatch = \<lparr>score = 0, callback = None, args = []\<rparr>"

text \<open>The best match after both loops, before the threshold test.\<close>

definition bestMatchOf :: "'cb Command list \<Rightarrow> string \<Rightarrow> error + 'cb BestMatch" where
  "bestMatchOf commands transcript =
     commandLoop transcript (processTranscript transcript) initialBestMatch commands"

definition findBestMatch ::
  "'cb Command list \<Rightarrow> string \<Rightarrow> error + 'cb BestMatch option" where
  "findBestMatch commands transcript =
     (case bestMatchOf commands transcript of
        Inl e \<Rightarrow> Inl e
      | Inr bestMatch \<Rightarrow>
          if score bestMatch \<ge> threshold \<and> callback bestMatch \<noteq> None
          then Inr (Some bestMatch) else Inr None)"

subsection \<open>Vocabulary for the statements\<close>

text \<open>The four shapes of a phrase, as the matcher tells them apart.\<close>

datatype phraseShape = UniversalWildcard | PrefixPattern | SuffixPattern | LiteralPhrase

definition shapeOf :: "string \<Rightarrow> phraseShape" where
  "shapeOf phrase =
     (let lowerPhrase = toLowerCase phrase in
      if lowerPhrase = ''*'' then UniversalWildcard
      else if endsWith lowerPhrase ''*'' then PrefixPattern
      else if startsWith lowerPhrase ''*'' then SuffixPattern
      else LiteralPhrase)"

text \<open>The length of the prefix or suffix of a pattern; 0 for the other shapes.\<close>

definition patternLength :: "string \<Rightarrow> nat" where
  "patternLength phrase =
     (case shapeOf phrase of
        PrefixPattern \<Rightarrow> length (trim (butlast (toLowerCase phrase)))
      | SuffixPattern \<Rightarrow> length (trim (drop 1 (toLowerCase phrase)))
      | _ \<Rightarrow> 0)"

text \<open>All phrases of a command list, in the order in which the loops visit them.\<close>

definition allPhrases :: "'cb Command list \<Rightarrow> string list" where
  "allPhrases commands = concat (map (\<lambda>c. phrasesOf (command c)) commands)"

text \<open>All words of the phonetic table.\<close>

definition vocabulary :: "string list" where
  "vocabulary = concat (map snd phoneticSimilarWordsMap)"

section \<open>Properties\<close>

subsection \<open>Evaluation and the loops\<close>

text \<open>What one pass of the loop body does to the best match.\<close>

lemma tryPhrase_cases:
  assumes "tryPhrase t lt cb b p = Inr b'"
  shows "b' = b \<or> (\<exists>s as. candidate (score b) t lt p = Inr (Some (s, as)) \<and> s > score b
            \<and> b' = \<lparr>score = s, callback = Some cb, args = as\<rparr>)"
  using assms unfolding tryPhrase_def
  by (auto split: sum.splits option.splits if_splits)

lemma phraseLoop_invariant:
  assumes "phraseLoop t lt cb b ps = Inr b'" and "I b"
    and "\<And>p b s as. p \<in> set ps \<Longrightarrow> I b \<Longrightarrow> candidate (score b) t lt p = Inr (Some (s, as))
            \<Longrightarrow> s > score b \<Longrightarrow> I \<lparr>score = s, callback = Some cb, args = as\<rparr>"
  shows "I b'"
  using assms
proof (induction ps arbitrary: b)
  case Nil
  then show ?case by simp
next
  case (Cons p ps)
  from Cons.prems(1) obtain b1 where t: "tryPhrase t lt cb b p = Inr b1"
    and r: "phraseLoop t lt cb b1 ps = Inr b'"
    by (auto split: sum.splits)
  from tryPhrase_cases[OF t] Cons.prems(2) Cons.prems(3)[of p b] have "I b1"
    by auto
  show ?case
    by (rule Cons.IH[OF r \<open>I b1\<close>]) (rule Cons.prems(3), simp_all)
qed

lemma commandLoop_invariant:
  assumes "commandLoop t lt b cmds = Inr b'" and "I b"
    and "\<And>c p b s as. c \<in> set cmds \<Longrightarrow> p \<in> set (phrasesOf (command c)) \<Longrightarrow> I b
            \<Longrightarrow> candidate (score b) t lt p = Inr (Some (s, as))
            \<Longrightarrow> s > score b \<Longrightarrow> I \<lparr>score = s, callback = Some (commandCallback c), args = as\<rparr>"
  shows "I b'"
  using assms
proof (induction cmds arbitrary: b)
  case Nil
  then show ?case by simp
next
  case (Cons c cmds)
  from Cons.prems(1) obtain b1 where
    t: "phraseLoop t lt (commandCallback c) b (phrasesOf (command c)) = Inr b1"
    and r: "commandLoop t lt b1 cmds = Inr b'"
    by (auto split: sum.splits)
  have "I b1"
    by (rule phraseLoop_invariant[where I = I, OF t Cons.prems(2)]) (rule Cons.prems(3), simp_all)
  show ?case
    by (rule Cons.IH[OF r \<open>I b1\<close>]) (rule Cons.prems(3), simp_all)
qed


lemma candidate_SomeE:
  assumes "candidate bs t lt p = Inr (Some (s, as))"
  obtains
    (wildcard) "shapeOf p = UniversalWildcard"
      "s = (if bs > 1 / 2 then 1 / 10 else 81 / 100)" "as = [t]"
  | (prefix) "shapeOf p = PrefixPattern"
      "startsWith lt (trim (butlast (toLowerCase p)))"
      "s = 9 / 10 + of_nat (patternLength p) / 100"
      "as = [trim (substringFrom t (patternLength p))]" "trim (substringFrom t (patternLength p)) \<noteq> []"
  | (suffix) "shapeOf p = SuffixPattern"
      "suffixIsMatch lt (toLowerCase p) (trim (drop 1 (toLowerCase p))) = Inr True"
      "s = 9 / 10 + of_nat (patternLength p) / 100"
      "as = [trim (substringTo t (lastIndexOf lt (last (splitSpaces lt))))]"
  | (exact) "shapeOf p = LiteralPhrase" "lt = toLowerCase p" "s = 1" "as = []"
  | (phonetic) "shapeOf p = LiteralPhrase" "lt \<noteq> toLowerCase p"
      "literalIsMatch lt (toLowerCase p) = Inr True"
      "s = 8 / 10 - of_int \<bar>int (length lt) - int (length (toLowerCase p))\<bar> * (5 / 100)"
      "as = []"
  | (distance) "shapeOf p = LiteralPhrase" "lt \<noteq> toLowerCase p"
      "literalIsMatch lt (toLowerCase p) = Inr False"
      "s = 1 - of_nat (levenshtein lt (toLowerCase p))
               / of_nat (max (length lt) (length (toLowerCase p)))"
      "as = []"
proof (cases "shapeOf p")
  case UniversalWildcard
  with assms wildcard show ?thesis
    unfolding candidate_def shapeOf_def by (auto simp: Let_def split: if_splits)
next
  case PrefixPattern
  with assms prefix show ?thesis
    unfolding candidate_def shapeOf_def patternLength_def
    by (auto simp: Let_def split: if_splits)
next
  case SuffixPattern
  with assms suffix show ?thesis
    unfolding candidate_def shapeOf_def patternLength_def
    by (auto simp: Let_def split: if_splits sum.splits bool.splits)
next
  case LiteralPhrase
  then have sh: "toLowerCase p \<noteq> ''*''" "\<not> endsWith (toLowerCase p) ''*''"
    "\<not> startsWith (toLowerCase p) ''*''"
    unfolding shapeOf_def by (auto simp: Let_def split: if_splits)
  show ?thesis
  proof (cases "lt = toLowerCase p")
    case True
    with assms sh have "s = 1" "as = []"
      unfolding candidate_def by (auto simp: Let_def)
    with exact LiteralPhrase True show ?thesis by simp
  next
    case False
    show ?thesis
    proof (cases "literalIsMatch lt (toLowerCase p)")
      case (Inl e)
      with assms sh False show ?thesis unfolding candidate_def by (simp add: Let_def)
    next
      case (Inr m)
      show ?thesis
      proof (cases m)
        case True
        with assms sh False Inr
        have "s = 8 / 10 - of_int \<bar>int (length lt) - int (length (toLowerCase p))\<bar> * (5 / 100)"
          "as = []"
          unfolding candidate_def by (simp_all add: Let_def)
        with phonetic LiteralPhrase False Inr True show ?thesis by simp
      next
        case F: False
        with assms sh False Inr
        have "s = 1 - of_nat (levenshtein lt (toLowerCase p))
               / of_nat (max (length lt) (length (toLowerCase p)))" "as = []"
          unfolding candidate_def by (simp_all add: Let_def)
        with distance LiteralPhrase False Inr F show ?thesis by simp
      qed
    qed
  qed
qed

lemma candidate_args:
  assumes "candidate bs t lt p = Inr (Some (s, as))"
  shows "if shapeOf p = LiteralPhrase then as = [] else length as = 1"
  using assms by (cases rule: candidate_SomeE) simp_all

lemma mem_allPhrases:
  "c \<in> set commands \<Longrightarrow> p \<in> set (phrasesOf (command c)) \<Longrightarrow> p \<in> set (allPhrases commands)"
  unfolding allPhrases_def by auto

lemma phonetic_score_le: "8 / 10 - of_int \<bar>d\<bar> * (5 / 100) \<le> (8 / 10 :: rat)"
  by simp

lemma candidate_score_le_1:
  assumes "candidate bs t lt p = Inr (Some (s, as))" and "patternLength p \<le> 10"
  shows "s \<le> 1"
  using assms(1)
proof (cases rule: candidate_SomeE)
  case phonetic
  have "s \<le> 8 / 10" unfolding phonetic(4) by (rule phonetic_score_le)
  then show ?thesis by simp
qed (use assms(2) in \<open>simp_all split: if_splits\<close>)

subsection \<open>The phonetic table\<close>

lemma distinct_keys: "distinct (map fst phoneticSimilarWordsMap)"
  by (simp add: phoneticSimilarWordsMap_def)

lemma getProperty_Words_iff:
  "getProperty k = Words ws \<longleftrightarrow> (k, ws) \<in> set phoneticSimilarWordsMap"
proof -
  have "getProperty k = Words ws \<longleftrightarrow> map_of phoneticSimilarWordsMap k = Some ws"
    by (auto simp: getProperty_def split: option.splits)
  then show ?thesis by (simp add: map_of_eq_Some_iff[OF distinct_keys])
qed

lemma getProperty_Inherited_iff:
  "getProperty k = Inherited \<longleftrightarrow>
     k \<notin> fst ` set phoneticSimilarWordsMap \<and> k \<in> set objectPrototypeNames"
proof -
  have "getProperty k = Inherited \<longleftrightarrow>
     map_of phoneticSimilarWordsMap k = None \<and> k \<in> set objectPrototypeNames"
    by (auto simp: getProperty_def split: option.splits)
  then show ?thesis by (simp add: map_of_eq_None_iff)
qed

lemma find_keys_general:
  assumes "\<And>k ws. (k, ws) \<in> set T \<Longrightarrow> g k = Words ws"
  shows "find (\<lambda>key. case g key of Words ws \<Rightarrow> w \<in> set ws | _ \<Rightarrow> False) (map fst T)
         = map_option fst (find (\<lambda>(k, ws). w \<in> set ws) T)"
  using assms
proof (induction T)
  case Nil
  then show ?case by simp
next
  case (Cons x T)
  obtain k ws where x: "x = (k, ws)" by (cases x)
  with Cons.prems have g: "g k = Words ws" by simp
  have "find (\<lambda>key. case g key of Words ws \<Rightarrow> w \<in> set ws | _ \<Rightarrow> False) (map fst T)
         = map_option fst (find (\<lambda>(k, ws). w \<in> set ws) T)"
    by (rule Cons.IH) (simp add: Cons.prems)
  with x g show ?case by simp
qed

text \<open>The main command of a word is the key of the first list that holds the word.\<close>

lemma findMainCommand_alt:
  "findMainCommand w = map_option fst (find (\<lambda>(k, ws). w \<in> set ws) phoneticSimilarWordsMap)"
  unfolding findMainCommand_def objectKeys_def
  by (rule find_keys_general) (simp add: getProperty_Words_iff)

lemma find_SomeD: "find P xs = Some x \<Longrightarrow> x \<in> set xs \<and> P x"
  by (induction xs) (auto split: if_splits)

lemma findMainCommand_Some:
  assumes "findMainCommand w = Some k"
  shows "\<exists>ws. (k, ws) \<in> set phoneticSimilarWordsMap \<and> w \<in> set ws"
proof -
  from assms obtain e where "find (\<lambda>(k, ws). w \<in> set ws) phoneticSimilarWordsMap = Some e"
    and "k = fst e"
    unfolding findMainCommand_alt by auto
  then have "e \<in> set phoneticSimilarWordsMap" and "w \<in> set (snd e)"
    by (auto dest: find_SomeD)
  with \<open>k = fst e\<close> show ?thesis by (cases e) auto
qed

lemma findMainCommand_None_iff: "findMainCommand w = None \<longleftrightarrow> w \<notin> set vocabulary"
  unfolding findMainCommand_alt vocabulary_def by (auto simp: find_None_iff)

lemma in_vocabulary: "(k, ws) \<in> set phoneticSimilarWordsMap \<Longrightarrow> w \<in> set ws \<Longrightarrow> w \<in> set vocabulary"
  unfolding vocabulary_def by force

text \<open>
  No word of the table is empty, starts with an asterisk or names a property of
  \<open>Object.prototype\<close>.
\<close>

lemma vocabulary_words:
  "list_all (\<lambda>w. w \<notin> set objectPrototypeNames \<and> w \<noteq> [] \<and> \<not> startsWith w ''*'') vocabulary"
  by (simp add: vocabulary_def objectPrototypeNames_def phoneticSimilarWordsMap_def
      startsWith_def)

lemma vocabulary_not_Inherited: "w \<in> set vocabulary \<Longrightarrow> getProperty w \<noteq> Inherited"
  using vocabulary_words by (auto simp: getProperty_Inherited_iff list_all_iff)

text \<open>Every key is its own main command, but \<open>and\<close>, whose main command is \<open>end\<close>.\<close>

lemma main_of_keys:
  "list_all (\<lambda>(k, ws). k \<noteq> [] \<and> findMainCommand k = Some (if k = ''and'' then ''end'' else k))
     phoneticSimilarWordsMap"
  by (simp add: findMainCommand_alt phoneticSimilarWordsMap_def)

lemma and_within_end:
  "(case (getProperty ''and'', getProperty ''end'') of
      (Words wa, Words we) \<Rightarrow> list_all (\<lambda>w. w \<in> set we) wa
    | _ \<Rightarrow> False)"
  by (simp add: getProperty_def phoneticSimilarWordsMap_def)

lemma viaMainCommand_no_error: "viaMainCommand w1 w2 \<noteq> Inl e"
proof (cases "findMainCommand w1")
  case None
  then show ?thesis by (simp add: viaMainCommand_def)
next
  case (Some k)
  from findMainCommand_Some[OF Some] obtain ws where "getProperty k = Words ws"
    by (auto simp: getProperty_Words_iff)
  with Some show ?thesis by (simp add: viaMainCommand_def includesAt_def)
qed

lemma viaMainCommand_vocabulary:
  assumes "viaMainCommand w1 w2 = Inr True"
  shows "w1 \<in> set vocabulary" and "w2 \<in> set vocabulary"
proof -
  from assms obtain k where k: "findMainCommand w1 = Some k" and i: "includesAt k w2 = Inr True"
    by (auto simp: viaMainCommand_def split: option.splits if_splits)
  from k show "w1 \<in> set vocabulary"
    using findMainCommand_None_iff[of w1] by auto
  from i obtain ws where "getProperty k = Words ws" "w2 \<in> set ws"
    by (auto simp: includesAt_def split: property.splits)
  then show "w2 \<in> set vocabulary"
    by (auto simp: getProperty_Words_iff intro: in_vocabulary)
qed

lemma includesAt_vocabulary:
  assumes "includesAt k w = Inr True"
  shows "w \<in> set vocabulary"
  using assms
  by (auto simp: includesAt_def getProperty_Words_iff split: property.splits intro: in_vocabulary)

text \<open>A word listed under a key is also listed under the main command of the key.\<close>

lemma includesAt_viaMainCommand:
  assumes "includesAt a b = Inr True"
  shows "viaMainCommand a b = Inr True"
proof -
  from assms obtain ws where ws: "getProperty a = Words ws" and b: "b \<in> set ws"
    by (auto simp: includesAt_def split: property.splits)
  then have "(a, ws) \<in> set phoneticSimilarWordsMap" by (simp add: getProperty_Words_iff)
  with main_of_keys have a: "a \<noteq> []"
    and m: "findMainCommand a = Some (if a = ''and'' then ''end'' else a)"
    by (auto simp: list_all_iff)
  show ?thesis
  proof (cases "a = ''and''")
    case False
    with a m assms show ?thesis by (simp add: viaMainCommand_def)
  next
    case True
    with ws b and_within_end have "includesAt ''end'' b = Inr True"
      by (auto simp: includesAt_def list_all_iff split: property.splits)
    with True m show ?thesis by (simp add: viaMainCommand_def)
  qed
qed

text \<open>When the phonetic test succeeds.\<close>

lemma soundsSimilar_True_iff:
  "soundsSimilar a b = Inr True \<longleftrightarrow>
     a = b \<or> (getProperty a \<noteq> Inherited \<and>
       (includesAt a b = Inr True \<or> viaMainCommand a b = Inr True
        \<or> viaMainCommand b a = Inr True))"
proof -
  have v: "\<And>x y. viaMainCommand x y = Inr True \<or> viaMainCommand x y = Inr False"
    using viaMainCommand_no_error by (metis (full_types) sum.exhaust)
  show ?thesis
    using v[of a b] v[of b a]
    by (cases "getProperty a")
      (auto simp: soundsSimilar_def includesAt_def split: sum.splits bool.splits)
qed

lemma soundsSimilar_True_sym:
  assumes "soundsSimilar a b = Inr True"
  shows "soundsSimilar b a = Inr True"
proof (cases "a = b")
  case True
  then show ?thesis by (simp add: soundsSimilar_def)
next
  case False
  with assms have d: "includesAt a b = Inr True \<or> viaMainCommand a b = Inr True
        \<or> viaMainCommand b a = Inr True"
    by (simp add: soundsSimilar_True_iff)
  then have "b \<in> set vocabulary"
    using includesAt_vocabulary viaMainCommand_vocabulary by blast
  then have "getProperty b \<noteq> Inherited" by (rule vocabulary_not_Inherited)
  moreover from d have "viaMainCommand a b = Inr True \<or> viaMainCommand b a = Inr True"
    using includesAt_viaMainCommand by blast
  ultimately show ?thesis by (auto simp: soundsSimilar_True_iff)
qed

subsection \<open>The phonetic tests never fail on words of the table\<close>

lemma soundsSimilar_no_error:
  assumes "getProperty w \<noteq> Inherited"
  shows "soundsSimilar w lt \<noteq> Inl e"
  using assms viaMainCommand_no_error
  by (cases "getProperty w")
    (auto simp: soundsSimilar_def includesAt_def split: sum.splits bool.splits)

lemma some_no_error:
  assumes "\<And>x e. x \<in> set xs \<Longrightarrow> p x \<noteq> Inl e"
  shows "some p xs = Inr (\<exists>x \<in> set xs. p x = Inr True)"
  using assms
proof (induction xs)
  case Nil
  then show ?case by simp
next
  case (Cons x xs)
  from Cons.prems[of x] obtain b where b: "p x = Inr b"
    by (cases "p x") auto
  have "some p xs = Inr (\<exists>x \<in> set xs. p x = Inr True)"
    by (rule Cons.IH) (simp add: Cons.prems)
  with b show ?case by (cases b) auto
qed

lemma some_soundsSimilar:
  assumes "(k, ws) \<in> set phoneticSimilarWordsMap"
  shows "some (\<lambda>word. soundsSimilar word lt) ws
         = Inr (\<exists>w \<in> set ws. soundsSimilar w lt = Inr True)"
proof (rule some_no_error)
  fix x e
  assume "x \<in> set ws"
  with assms have "x \<in> set vocabulary" by (rule in_vocabulary)
  then have "getProperty x \<noteq> Inherited" by (rule vocabulary_not_Inherited)
  then show "soundsSimilar x lt \<noteq> Inl e" by (rule soundsSimilar_no_error)
qed

lemma soundsSimilar_outside:
  assumes "w \<in> set vocabulary" and "lt \<notin> set vocabulary"
  shows "soundsSimilar w lt = Inr False"
proof -
  from assms have "w \<noteq> lt" by auto
  moreover from assms(2) have "includesAt w lt \<noteq> Inr True" "viaMainCommand w lt \<noteq> Inr True"
    "viaMainCommand lt w \<noteq> Inr True"
    using includesAt_vocabulary viaMainCommand_vocabulary by blast+
  ultimately have "soundsSimilar w lt \<noteq> Inr True" by (simp add: soundsSimilar_True_iff)
  moreover have "\<And>e. soundsSimilar w lt \<noteq> Inl e"
    using assms(1) by (intro soundsSimilar_no_error vocabulary_not_Inherited)
  ultimately show ?thesis
    by (cases "soundsSimilar w lt") auto
qed

text \<open>The phonetic test of a literal phrase raises only for an inherited property.\<close>

lemma phraseListMatch_value:
  assumes "getProperty lp \<noteq> Inherited"
  shows "phraseListMatch lt lp =
     Inr (\<exists>ws. getProperty lp = Words ws \<and> (\<exists>w \<in> set ws. soundsSimilar w lt = Inr True))"
proof (cases "getProperty lp")
  case (Words ws)
  then have "(lp, ws) \<in> set phoneticSimilarWordsMap" by (simp add: getProperty_Words_iff)
  from some_soundsSimilar[OF this] Words show ?thesis by (simp add: phraseListMatch_def)
qed (use assms in \<open>simp_all add: phraseListMatch_def\<close>)

lemma mainCommandMatch_cases:
  "mainCommandMatch lt lp = Inr False
   \<or> (\<exists>w \<in> set vocabulary. mainCommandMatch lt lp = soundsSimilar w lt)"
proof (cases "findMainCommand lp")
  case None
  then show ?thesis by (simp add: mainCommandMatch_def)
next
  case (Some k)
  then obtain ws0 where k: "(k, ws0) \<in> set phoneticSimilarWordsMap"
    using findMainCommand_Some by blast
  then have g: "getProperty k = Words ws0" by (simp add: getProperty_Words_iff)
  show ?thesis
  proof (cases ws0)
    case Nil
    with Some g show ?thesis by (simp add: mainCommandMatch_def)
  next
    case (Cons w ws')
    with k have "w \<in> set vocabulary" by (auto intro: in_vocabulary)
    with Some g Cons show ?thesis by (auto simp: mainCommandMatch_def)
  qed
qed

lemma mainCommandMatch_no_error: "mainCommandMatch lt lp \<noteq> Inl e"
  using mainCommandMatch_cases[of lt lp] soundsSimilar_no_error vocabulary_not_Inherited
  by (metis Inl_Inr_False)

lemma literalIsMatch_no_error:
  assumes "getProperty lp \<noteq> Inherited"
  shows "literalIsMatch lt lp \<noteq> Inl e"
  using phraseListMatch_value[OF assms, of lt] mainCommandMatch_no_error[of lt lp]
  by (auto simp: literalIsMatch_def split: sum.splits bool.splits)

text \<open>A phrase outside the table has no phonetic match.\<close>

lemma literalIsMatch_outside:
  assumes "lp \<notin> set vocabulary" and "lp \<notin> set objectPrototypeNames"
  shows "literalIsMatch lt lp = Inr False"
proof -
  from assms(1) have m: "findMainCommand lp = None" by (simp add: findMainCommand_None_iff)
  have "getProperty lp = Undefined"
  proof (cases "getProperty lp")
    case (Words ws)
    then have "(lp, ws) \<in> set phoneticSimilarWordsMap" by (simp add: getProperty_Words_iff)
    with main_of_keys have "findMainCommand lp \<noteq> None" by (auto simp: list_all_iff)
    with m show ?thesis by simp
  next
    case Inherited
    with assms(2) show ?thesis by (simp add: getProperty_Inherited_iff)
  qed simp
  with m show ?thesis
    by (simp add: literalIsMatch_def phraseListMatch_def mainCommandMatch_def)
qed

text \<open>
  In the suffix branch the phonetic test is never reached with a hit: no word of the
  table starts with an asterisk, so a suffix pattern has no main command.
\<close>

lemma suffixIsMatch_endsWith:
  assumes "startsWith lp ''*''"
  shows "suffixIsMatch lt lp suffix = Inr (endsWith lt suffix)"
proof -
  from assms vocabulary_words have "lp \<notin> set vocabulary"
    by (auto simp: list_all_iff)
  then have "findMainCommand lp = None" by (simp add: findMainCommand_None_iff)
  then show ?thesis by (simp add: suffixIsMatch_def)
qed

text \<open>The candidate of a phrase is computed without error unless the phrase is a literal
  that names an inherited property.\<close>

lemma candidate_no_error:
  assumes "getProperty (toLowerCase p) \<noteq> Inherited"
  shows "candidate bs t lt p \<noteq> Inl e"
  using assms literalIsMatch_no_error[of "toLowerCase p" lt]
  by (auto simp: candidate_def Let_def suffixIsMatch_endsWith split: sum.splits bool.splits)

subsection \<open>The matcher on a single phrase\<close>

lemma findBestMatch_single:
  "findBestMatch [Command (Phrase p) cb] t =
     (case candidate 0 t (processTranscript t) p of
        Inl e \<Rightarrow> Inl e
      | Inr None \<Rightarrow> Inr None
      | Inr (Some (s, as)) \<Rightarrow>
          if s \<ge> 7 / 10 then Inr (Some \<lparr>score = s, callback = Some cb, args = as\<rparr>)
          else Inr None)"
  by (auto simp: findBestMatch_def bestMatchOf_def tryPhrase_def initialBestMatch_def
      threshold_def split: sum.splits option.splits)

lemma candidate_distance:
  assumes "shapeOf p = LiteralPhrase" and "lt \<noteq> toLowerCase p"
    and "toLowerCase p \<notin> set vocabulary" and "toLowerCase p \<notin> set objectPrototypeNames"
  shows "candidate bs t lt p =
     Inr (Some (1 - of_nat (levenshtein lt (toLowerCase p))
                    / of_nat (max (length lt) (length (toLowerCase p))), []))"
proof -
  from assms(1) have "toLowerCase p \<noteq> ''*''" "\<not> endsWith (toLowerCase p) ''*''"
    "\<not> startsWith (toLowerCase p) ''*''"
    unfolding shapeOf_def by (auto simp: Let_def split: if_splits)
  with assms(2) literalIsMatch_outside[OF assms(3,4)] show ?thesis
    by (simp add: candidate_def Let_def)
qed

lemmas string_defs = toLowerCase_def toLowerChar_def char_of_def bit_0 trim_def
  isWhiteSpace_def startsWith_def endsWith_def substringFrom_def substringTo_def
  lastIndexOf_def

lemmas table_defs = vocabulary_def phoneticSimilarWordsMap_def objectPrototypeNames_def

subsection \<open>Loops that leave the best match unchanged\<close>

lemma tryPhrase_unchanged:
  assumes "candidate (score b) t lt p = Inr None
           \<or> (\<exists>s as. candidate (score b) t lt p = Inr (Some (s, as)) \<and> s \<le> score b)"
  shows "tryPhrase t lt cb b p = Inr b"
  using assms by (auto simp: tryPhrase_def)

lemma phraseLoop_unchanged:
  assumes "\<And>p. p \<in> set ps \<Longrightarrow> candidate (score b) t lt p = Inr None
           \<or> (\<exists>s as. candidate (score b) t lt p = Inr (Some (s, as)) \<and> s \<le> score b)"
  shows "phraseLoop t lt cb b ps = Inr b"
  using assms by (induction ps) (simp_all add: tryPhrase_unchanged)

lemma commandLoop_unchanged:
  assumes "\<And>p. p \<in> set (allPhrases cmds) \<Longrightarrow> candidate (score b) t lt p = Inr None
           \<or> (\<exists>s as. candidate (score b) t lt p = Inr (Some (s, as)) \<and> s \<le> score b)"
  shows "commandLoop t lt b cmds = Inr b"
  using assms
proof (induction cmds)
  case Nil
  then show ?case by simp
next
  case (Cons c cmds)
  have "phraseLoop t lt (commandCallback c) b (phrasesOf (command c)) = Inr b"
    by (rule phraseLoop_unchanged) (rule Cons.prems, simp add: allPhrases_def)
  moreover have "commandLoop t lt b cmds = Inr b"
    by (rule Cons.IH) (rule Cons.prems, simp add: allPhrases_def)
  ultimately show ?case by simp
qed

subsection \<open>The matcher returns\<close>

text \<open>
  The loops are structural recursions over the command list and the phrase lists, so
  the matcher always ends. It ends without error when no phrase names an inherited
  property of the table object.
\<close>

lemma tryPhrase_returns:
  assumes "getProperty (toLowerCase p) \<noteq> Inherited"
  shows "\<exists>b'. tryPhrase t lt cb b p = Inr b'"
proof (cases "candidate (score b) t lt p")
  case (Inl e)
  with candidate_no_error[OF assms] show ?thesis by blast
next
  case (Inr r)
  then show ?thesis by (cases r) (auto simp: tryPhrase_def)
qed

lemma phraseLoop_returns:
  assumes "\<And>p. p \<in> set ps \<Longrightarrow> getProperty (toLowerCase p) \<noteq> Inherited"
  shows "\<exists>b'. phraseLoop t lt cb b ps = Inr b'"
  using assms
proof (induction ps arbitrary: b)
  case Nil
  then show ?case by simp
next
  case (Cons p ps)
  from tryPhrase_returns[of p t lt cb b] Cons.prems[of p]
  obtain b1 where t: "tryPhrase t lt cb b p = Inr b1" by auto
  have "\<exists>b'. phraseLoop t lt cb b1 ps = Inr b'"
    by (rule Cons.IH) (rule Cons.prems, simp)
  with t show ?case by simp
qed

lemma commandLoop_returns:
  assumes "\<And>p. p \<in> set (allPhrases cmds) \<Longrightarrow> getProperty (toLowerCase p) \<noteq> Inherited"
  shows "\<exists>b'. commandLoop t lt b cmds = Inr b'"
  using assms
proof (induction cmds arbitrary: b)
  case Nil
  then show ?case by simp
next
  case (Cons c cmds)
  have "\<exists>b'. phraseLoop t lt (commandCallback c) b (phrasesOf (command c)) = Inr b'"
    by (rule phraseLoop_returns) (rule Cons.prems, simp add: allPhrases_def)
  then obtain b1 where t: "phraseLoop t lt (commandCallback c) b (phrasesOf (command c)) = Inr b1"
    by auto
  have "\<exists>b'. commandLoop t lt b1 cmds = Inr b'"
    by (rule Cons.IH) (rule Cons.prems, simp add: allPhrases_def)
  with t show ?case by simp
qed

lemma findBestMatch_returns:
  assumes "\<forall>p \<in> set (allPhrases commands). getProperty (toLowerCase p) \<noteq> Inherited"
  shows "\<exists>r. findBestMatch commands transcript = Inr r"
proof -
  from commandLoop_returns[of commands transcript "processTranscript transcript" initialBestMatch]
    assms
  obtain b where "bestMatchOf commands transcript = Inr b"
    by (auto simp: bestMatchOf_def)
  then show ?thesis by (simp add: findBestMatch_def)
qed

subsection \<open>Edit distance zero\<close>

text \<open>A cell of a row is 0 only if the characters agree and the cell to the upper left is 0.\<close>

lemma length_fillRow:
  "length prev = Suc (length as) \<Longrightarrow> length (fillRow bc as prev left) = length as"
proof (induction as arbitrary: prev left)
  case Nil
  then show ?case by simp
next
  case (Cons ac as)
  then obtain d u rest where prev: "prev = d # u # rest"
    by (cases prev; cases "tl prev") auto
  with Cons.prems have "length (u # rest) = Suc (length as)" by simp
  from Cons.IH[OF this] prev show ?case by (simp add: Let_def)
qed

lemma fillRow_zero:
  assumes "length prev = Suc (length as)" and "k < length as"
    and "fillRow bc as prev left ! k = 0"
  shows "bc = as ! k \<and> prev ! k = 0"
  using assms
proof (induction as arbitrary: prev left k)
  case Nil
  then show ?case by simp
next
  case (Cons ac as)
  then obtain d u rest where prev: "prev = d # u # rest"
    by (cases prev; cases "tl prev") auto
  with Cons.prems(1) have len: "length (u # rest) = Suc (length as)" by simp
  show ?case
  proof (cases k)
    case 0
    with Cons.prems(3) prev show ?thesis
      by (auto simp: Let_def split: if_splits)
  next
    case (Suc j)
    with Cons.prems(2,3) prev
    have "j < length as" and "fillRow bc as (u # rest)
        (if bc = ac then d else min (d + 1) (min (left + 1) (u + 1))) ! j = 0"
      by (simp_all add: Let_def)
    from Cons.IH[OF len this] Suc prev show ?thesis by simp
  qed
qed

text \<open>
  The rows of the matrix: a cell of the row for the prefix \<open>done\<close> of \<open>b\<close> is 0 only in
  the column of an equal prefix of \<open>a\<close>.
\<close>

lemma matrixRows_zero:
  assumes "length prev = Suc (length a)"
    and "\<And>j. j \<le> length a \<Longrightarrow> prev ! j = 0 \<Longrightarrow> done = take j a"
    and "i = Suc (length done)"
  shows "length (matrixRows a bs i prev) = Suc (length a) \<and>
         (\<forall>j \<le> length a. matrixRows a bs i prev ! j = 0 \<longrightarrow> done @ bs = take j a)"
  using assms
proof (induction bs arbitrary: prev "done" i)
  case Nil
  then show ?case by simp
next
  case (Cons bc bs)
  let ?row = "i # fillRow bc a prev i"
  have len: "length ?row = Suc (length a)"
    using Cons.prems(1) by (simp add: length_fillRow)
  have zero: "done @ [bc] = take j a" if "j \<le> length a" and "?row ! j = 0" for j
  proof (cases j)
    case 0
    with that Cons.prems(3) show ?thesis by simp
  next
    case (Suc k)
    with that have k: "k < length a" and "fillRow bc a prev i ! k = 0" by simp_all
    from fillRow_zero[OF Cons.prems(1) this]
    have "bc = a ! k" and "prev ! k = 0" by simp_all
    with Cons.prems(2)[of k] k have "done = take k a" by simp
    with \<open>bc = a ! k\<close> k Suc show ?thesis
      by (simp add: take_Suc_conv_app_nth)
  qed
  have "Suc i = Suc (length (done @ [bc]))" using Cons.prems(3) by simp
  from Cons.IH[OF len zero this] show ?case by simp
qed

lemma levenshtein_zero:
  assumes "levenshtein a b = 0"
  shows "a = b"
proof (cases "a = [] \<or> b = []")
  case True
  with assms show ?thesis by (auto simp: levenshtein_def split: if_splits)
next
  case False
  let ?rows = "matrixRows a b 1 [0..<Suc (length a)]"
  have R: "length ?rows = Suc (length a) \<and>
         (\<forall>j \<le> length a. ?rows ! j = 0 \<longrightarrow> [] @ b = take j a)"
  proof (rule matrixRows_zero)
    show "length [0..<Suc (length a)] = Suc (length a)" by simp
    show "[] = take j a" if "j \<le> length a" and "[0..<Suc (length a)] ! j = 0" for j
      using that by (simp del: upt_Suc)
    show "1 = Suc (length ([]::string))" by simp
  qed
  from R have len: "length ?rows = Suc (length a)" by (rule conjunct1)
  from conjunct2[OF R]
  have "length a \<le> length a \<longrightarrow> ?rows ! length a = 0 \<longrightarrow> [] @ b = take (length a) a"
    by (rule spec)
  then have zero: "?rows ! length a = 0 \<Longrightarrow> b = a" by (simp del: upt_Suc)
  from len have ne: "?rows \<noteq> []" by (cases ?rows) (simp_all del: upt_Suc)
  have "last ?rows = ?rows ! (length ?rows - 1)" using ne by (rule last_conv_nth)
  also have "\<dots> = ?rows ! length a" unfolding len by (simp del: upt_Suc)
  finally have l: "last ?rows = ?rows ! length a" .
  from assms False have "last ?rows = 0" by (simp add: levenshtein_def del: upt_Suc)
  with l have "?rows ! length a = 0" by (simp del: upt_Suc)
  from zero[OF this] show ?thesis by (rule sym)
qed

text \<open>An edit-distance score stays below 1 when the strings differ.\<close>

lemma distance_score_less_1:
  assumes "lt \<noteq> lp"
  shows "1 - of_nat (levenshtein lt lp) / of_nat (max (length lt) (length lp)) < (1::rat)"
proof -
  from assms have "levenshtein lt lp \<noteq> 0" using levenshtein_zero by blast
  then have d: "(0::rat) < of_nat (levenshtein lt lp)" by simp
  from assms have "max (length lt) (length lp) \<noteq> 0" by auto
  then have m: "(0::rat) < of_nat (max (length lt) (length lp))"
    by (simp only: of_nat_0_less_iff)
  from divide_pos_pos[OF d m] show ?thesis by simp
qed

subsection \<open>The universal wildcard and specific commands\<close>

lemma commandLoop_append:
  "commandLoop t lt b (xs @ ys) =
     (case commandLoop t lt b xs of Inl e \<Rightarrow> Inl e | Inr b' \<Rightarrow> commandLoop t lt b' ys)"
  by (induction xs arbitrary: b) (simp_all split: sum.splits)

text \<open>Only the universal wildcard reads the score of the best match so far.\<close>

lemma candidate_score_independent:
  assumes "shapeOf p \<noteq> UniversalWildcard"
  shows "candidate bs t lt p = candidate bs' t lt p"
proof -
  from assms have "toLowerCase p \<noteq> ''*''"
    unfolding shapeOf_def by (auto simp: Let_def split: if_splits)
  then show ?thesis by (simp add: candidate_def Let_def)
qed

text \<open>The score of the best match never decreases, and it reaches the score of every
  candidate that is not a universal wildcard.\<close>

lemma tryPhrase_mono: "tryPhrase t lt cb b p = Inr b' \<Longrightarrow> score b \<le> score b'"
  by (auto dest!: tryPhrase_cases)

lemma phraseLoop_mono: "phraseLoop t lt cb b ps = Inr b' \<Longrightarrow> score b \<le> score b'"
proof (induction ps arbitrary: b)
  case Nil
  then show ?case by simp
next
  case (Cons p ps)
  then obtain b1 where p: "tryPhrase t lt cb b p = Inr b1"
    and r: "phraseLoop t lt cb b1 ps = Inr b'"
    by (auto split: sum.splits)
  from tryPhrase_mono[OF p] Cons.IH[OF r] show ?case by simp
qed

lemma commandLoop_mono: "commandLoop t lt b cmds = Inr b' \<Longrightarrow> score b \<le> score b'"
proof (induction cmds arbitrary: b)
  case Nil
  then show ?case by simp
next
  case (Cons c cmds)
  then obtain b1 where p: "phraseLoop t lt (commandCallback c) b (phrasesOf (command c)) = Inr b1"
    and r: "commandLoop t lt b1 cmds = Inr b'"
    by (auto split: sum.splits)
  from phraseLoop_mono[OF p] Cons.IH[OF r] show ?case by simp
qed

lemma tryPhrase_reaches:
  assumes "tryPhrase t lt cb b p = Inr b'" and "shapeOf p \<noteq> UniversalWildcard"
    and "candidate bs t lt p = Inr (Some (s, as))"
  shows "s \<le> score b'"
proof -
  from assms(2,3) have "candidate (score b) t lt p = Inr (Some (s, as))"
    using candidate_score_independent by metis
  with assms(1) show ?thesis by (auto simp: tryPhrase_def split: if_splits)
qed

lemma phraseLoop_reaches:
  assumes "phraseLoop t lt cb b ps = Inr b'" and "p \<in> set ps"
    and "shapeOf p \<noteq> UniversalWildcard" and "candidate bs t lt p = Inr (Some (s, as))"
  shows "s \<le> score b'"
  using assms(1,2)
proof (induction ps arbitrary: b)
  case Nil
  then show ?case by simp
next
  case (Cons q qs)
  then obtain b1 where t: "tryPhrase t lt cb b q = Inr b1"
    and r: "phraseLoop t lt cb b1 qs = Inr b'"
    by (auto split: sum.splits)
  show ?case
  proof (cases "p = q")
    case True
    with t assms(3,4) have "s \<le> score b1" by (auto intro: tryPhrase_reaches)
    with phraseLoop_mono[OF r] show ?thesis by simp
  next
    case False
    with Cons.prems(2) have "p \<in> set qs" by simp
    with Cons.IH[OF r] show ?thesis by simp
  qed
qed

lemma commandLoop_reaches:
  assumes "commandLoop t lt b cmds = Inr b'" and "c \<in> set cmds"
    and "p \<in> set (phrasesOf (command c))"
    and "shapeOf p \<noteq> UniversalWildcard" and "candidate bs t lt p = Inr (Some (s, as))"
  shows "s \<le> score b'"
  using assms(1,2)
proof (induction cmds arbitrary: b)
  case Nil
  then show ?case by simp
next
  case (Cons d ds)
  then obtain b1 where t: "phraseLoop t lt (commandCallback d) b (phrasesOf (command d)) = Inr b1"
    and r: "commandLoop t lt b1 ds = Inr b'"
    by (auto split: sum.splits)
  show ?case
  proof (cases "c = d")
    case True
    with t assms(3,4,5) have "s \<le> score b1" by (auto intro: phraseLoop_reaches)
    with commandLoop_mono[OF r] show ?thesis by simp
  next
    case False
    with Cons.prems(2) have "c \<in> set ds" by simp
    with Cons.IH[OF r] show ?thesis by simp
  qed
qed

lemma candidate_wildcard:
  assumes "shapeOf w = UniversalWildcard"
  shows "candidate bs t lt w = Inr (Some (if bs > 1 / 2 then 1 / 10 else 81 / 100, [t]))"
proof -
  from assms have "toLowerCase w = ''*''"
    unfolding shapeOf_def by (auto simp: Let_def split: if_splits)
  then show ?thesis by (simp add: candidate_def)
qed

text \<open>
  C1, as stated, fails: the position of the wildcard matters. With the wildcard first it
  is scored 0.81 before the literal phrase \<open>photo\<close> is looked at; the phonetic
  candidate of \<open>photo\<close> for the transcript \<open>foto\<close> scores 0.75, which exceeds 0.5 but not
  0.81, and the wildcard is resolved.
\<close>

theorem wildcard_first_wins:
  "candidate 0 ''foto'' ''foto'' ''photo'' = Inr (Some (3 / 4, []))
   \<and> (1 / 2 :: rat) < 3 / 4
   \<and> findBestMatch [Command (Phrase ''*'') (4::nat), Command (Phrase ''photo'') 1] ''foto''
     = Inr (Some \<lparr>score = 81 / 100, callback = Some 4, args = [''foto'']\<rparr>)"
proof -
  have g: "getProperty ''photo'' = Words [''photo'', ''foto'', ''shot'', ''pot'', ''plot'',
      ''pro'', ''show'', ''goes'', ''those'', ''close'', ''flows'']"
    by (simp add: getProperty_def phoneticSimilarWordsMap_def)
  have "soundsSimilar ''foto'' ''foto'' = Inr True" by (simp add: soundsSimilar_def)
  moreover have "soundsSimilar ''photo'' ''foto'' = Inr False \<or> soundsSimilar ''photo'' ''foto'' = Inr True"
    by (cases "soundsSimilar ''photo'' ''foto''") (auto simp: soundsSimilar_no_error g)
  ultimately have "literalIsMatch ''foto'' ''photo'' = Inr True"
    by (auto simp: literalIsMatch_def phraseListMatch_def g)
  then have c: "candidate bs ''foto'' ''foto'' ''photo'' = Inr (Some (3 / 4, []))" for bs
    by (simp add: candidate_def string_defs)
  have w: "candidate 0 ''foto'' ''foto'' ''*'' = Inr (Some (81 / 100, [''foto'']))"
    by (simp add: candidate_def string_defs)
  have t: "processTranscript ''foto'' = ''foto''"
    by (simp add: processTranscript_def string_defs)
  show ?thesis
    by (simp add: findBestMatch_def bestMatchOf_def t tryPhrase_def c w initialBestMatch_def
        threshold_def)
qed

text \<open>
  C1, amended. The universal wildcard is scored 0.1 when the best match so far scores
  above 0.5, and 0.81 otherwise. When it comes after a command with a literal, prefix or
  suffix phrase whose candidate scores above 0.5, it is given the suppressed score 0.1
  and the matcher returns what it returns for the list without the wildcard.
\<close>

theorem wildcard_after_specific:
  assumes "c \<in> set pre" and "p \<in> set (phrasesOf (command c))"
    and "shapeOf p \<noteq> UniversalWildcard"
    and "candidate bs t (processTranscript t) p = Inr (Some (s, as))" and "s > 1 / 2"
    and "shapeOf w = UniversalWildcard"
  shows "candidate bs' t (processTranscript t) w
           = Inr (Some (if bs' > 1 / 2 then 1 / 10 else 81 / 100, [t]))
         \<and> (\<forall>b. bestMatchOf pre t = Inr b \<longrightarrow>
            candidate (score b) t (processTranscript t) w = Inr (Some (1 / 10, [t])))
         \<and> findBestMatch (pre @ Command (Phrase w) cb # post) t = findBestMatch (pre @ post) t"
proof -
  let ?lt = "processTranscript t"
  have above: "score b > 1 / 2" if "commandLoop t ?lt initialBestMatch pre = Inr b" for b :: "'a BestMatch"
    using commandLoop_reaches[OF that assms(1,2,3,4)] assms(5) by simp
  have skip: "commandLoop t ?lt b (Command (Phrase w) cb # post) = commandLoop t ?lt b post"
    if "score b > 1 / 2" for b :: "'a BestMatch"
    using that by (simp add: tryPhrase_def candidate_wildcard[OF assms(6)])
  have "commandLoop t ?lt initialBestMatch (pre @ Command (Phrase w) cb # post)
        = commandLoop t ?lt initialBestMatch (pre @ post)"
    unfolding commandLoop_append using above skip by (auto split: sum.splits)
  moreover have "\<forall>b. bestMatchOf pre t = Inr b \<longrightarrow>
            candidate (score b) t ?lt w = Inr (Some (1 / 10, [t]))"
    using above by (simp add: bestMatchOf_def candidate_wildcard[OF assms(6)])
  ultimately show ?thesis
    by (simp add: findBestMatch_def bestMatchOf_def candidate_wildcard[OF assms(6)])
qed

theorem wildcard_after_specific_witness:
  "shapeOf ''photo'' \<noteq> UniversalWildcard
   \<and> candidate 0 ''photo'' (processTranscript ''photo'') ''photo'' = Inr (Some (1, []))
   \<and> (1 / 2 :: rat) < 1 \<and> shapeOf ''*'' = UniversalWildcard
   \<and> findBestMatch ([Command (Phrase ''photo'') (1::nat)] @ Command (Phrase ''*'') 4 # []) ''photo''
     = findBestMatch ([Command (Phrase ''photo'') (1::nat)] @ []) ''photo''"
proof -
  have s: "shapeOf ''photo'' \<noteq> UniversalWildcard" "shapeOf ''*'' = UniversalWildcard"
    by (simp_all add: shapeOf_def string_defs)
  have t: "processTranscript ''photo'' = ''photo''"
    by (simp add: processTranscript_def string_defs)
  have c: "candidate 0 ''photo'' (processTranscript ''photo'') ''photo'' = Inr (Some (1, []))"
    unfolding t by (simp add: candidate_def string_defs)
  have h: "(1 / 2 :: rat) < 1" by simp
  have m: "Command (Phrase ''photo'') (1::nat) \<in> set [Command (Phrase ''photo'') 1]"
    and q: "''photo'' \<in> set (phrasesOf (command (Command (Phrase ''photo'') (1::nat))))"
    by simp_all
  from wildcard_after_specific[OF m q s(1) c h s(2), of _ 4 "[]"]
  have r: "findBestMatch ([Command (Phrase ''photo'') (1::nat)] @ Command (Phrase ''*'') 4 # []) ''photo''
     = findBestMatch ([Command (Phrase ''photo'') (1::nat)] @ []) ''photo''"
    by simp
  show ?thesis by (intro conjI) (fact s c h r)+
qed

subsection \<open>Acceptance at the threshold\<close>

text \<open>
  C2. The matcher returns a result exactly when the best match of the two loops has a
  score of at least the threshold 0.7 and carries a callback, and then it returns that
  best match; it returns null exactly when the loops end without error and this test
  fails. A best edit-distance score of exactly 0.7 (distance 3 over length 10) is
  accepted; a best score just below it (distance 4 over length 13, about 0.692) is
  rejected.
\<close>

theorem findBestMatch_threshold:
  "(findBestMatch commands transcript = Inr (Some r) \<longleftrightarrow>
      bestMatchOf commands transcript = Inr r \<and> threshold \<le> score r \<and> callback r \<noteq> None)
   \<and> (findBestMatch commands transcript = Inr None \<longleftrightarrow>
      (\<exists>b. bestMatchOf commands transcript = Inr b
           \<and> \<not> (threshold \<le> score b \<and> callback b \<noteq> None)))
   \<and> threshold = 7 / 10
   \<and> findBestMatch [Command (Phrase ''abcdefgxyz'') cb] ''abcdefghij''
       = Inr (Some \<lparr>score = 7 / 10, callback = Some cb, args = []\<rparr>)
   \<and> findBestMatch [Command (Phrase ''abcdefghijklm'') cb] ''abcdefghiwxyz'' = Inr None"
proof -
  have accept: "findBestMatch [Command (Phrase ''abcdefgxyz'') cb] ''abcdefghij''
       = Inr (Some \<lparr>score = 7 / 10, callback = Some cb, args = []\<rparr>)"
  proof -
    have p: "toLowerCase ''abcdefgxyz'' = ''abcdefgxyz''"
      and t: "processTranscript ''abcdefghij'' = ''abcdefghij''"
      by (simp_all add: processTranscript_def string_defs)
    have "''abcdefgxyz'' \<notin> set vocabulary" "''abcdefgxyz'' \<notin> set objectPrototypeNames"
      by (simp_all add: table_defs)
    then have "candidate 0 ''abcdefghij'' ''abcdefghij'' ''abcdefgxyz''
        = Inr (Some (1 - of_nat (levenshtein ''abcdefghij'' ''abcdefgxyz'') / of_nat 10, []))"
      by (subst candidate_distance) (simp_all add: p shapeOf_def string_defs)
    moreover have "levenshtein ''abcdefghij'' ''abcdefgxyz'' = 3"
      by (simp add: levenshtein_def)
    ultimately show ?thesis by (simp add: findBestMatch_single t)
  qed
  have reject: "findBestMatch [Command (Phrase ''abcdefghijklm'') cb] ''abcdefghiwxyz'' = Inr None"
  proof -
    have p: "toLowerCase ''abcdefghijklm'' = ''abcdefghijklm''"
      and t: "processTranscript ''abcdefghiwxyz'' = ''abcdefghiwxyz''"
      by (simp_all add: processTranscript_def string_defs)
    have "''abcdefghijklm'' \<notin> set vocabulary" "''abcdefghijklm'' \<notin> set objectPrototypeNames"
      by (simp_all add: table_defs)
    then have "candidate 0 ''abcdefghiwxyz'' ''abcdefghiwxyz'' ''abcdefghijklm''
        = Inr (Some (1 - of_nat (levenshtein ''abcdefghiwxyz'' ''abcdefghijklm'') / of_nat 13, []))"
      by (subst candidate_distance) (simp_all add: p shapeOf_def string_defs)
    moreover have "levenshtein ''abcdefghiwxyz'' ''abcdefghijklm'' = 4"
      by (simp add: levenshtein_def)
    ultimately show ?thesis by (simp add: findBestMatch_single t)
  qed
  have general: "(findBestMatch commands transcript = Inr (Some r) \<longleftrightarrow>
      bestMatchOf commands transcript = Inr r \<and> threshold \<le> score r \<and> callback r \<noteq> None)
   \<and> (findBestMatch commands transcript = Inr None \<longleftrightarrow>
      (\<exists>b. bestMatchOf commands transcript = Inr b
           \<and> \<not> (threshold \<le> score b \<and> callback b \<noteq> None)))
   \<and> threshold = 7 / 10"
    unfolding findBestMatch_def threshold_def by (auto split: sum.splits)
  from general accept reject show ?thesis by blast
qed

subsection \<open>The exact literal match\<close>

lemma candidate_exact:
  assumes "shapeOf p = LiteralPhrase" and "toLowerCase p = lt"
  shows "candidate bs t lt p = Inr (Some (1, []))"
proof -
  from assms(1) have "toLowerCase p \<noteq> ''*''" "\<not> endsWith (toLowerCase p) ''*''"
    "\<not> startsWith (toLowerCase p) ''*''"
    unfolding shapeOf_def by (auto simp: Let_def split: if_splits)
  with assms(2) show ?thesis by (simp add: candidate_def Let_def)
qed

text \<open>Every other candidate scores below 1 when its pattern is shorter than ten characters.\<close>

lemma candidate_below_1:
  assumes "candidate bs t lt p = Inr (Some (s, as))" and "patternLength p < 10"
    and "\<not> (shapeOf p = LiteralPhrase \<and> toLowerCase p = lt)"
  shows "s < 1"
  using assms(1)
proof (cases rule: candidate_SomeE)
  case phonetic
  have "s \<le> 8 / 10" unfolding phonetic(4) by (rule phonetic_score_le)
  then show ?thesis by simp
next
  case distance
  from distance(2) show ?thesis unfolding distance(4) by (rule distance_score_less_1)
qed (use assms(2,3) in \<open>simp_all split: if_splits\<close>)

lemma candidate_at_most_1:
  assumes "patternLength p < 10" and "getProperty (toLowerCase p) \<noteq> Inherited"
  shows "candidate bs t lt p = Inr None
         \<or> (\<exists>s as. candidate bs t lt p = Inr (Some (s, as)) \<and> s \<le> 1)"
proof (cases "candidate bs t lt p")
  case (Inl e)
  with candidate_no_error[OF assms(2)] show ?thesis by blast
next
  case (Inr r)
  show ?thesis
  proof (cases r)
    case None
    with Inr show ?thesis by simp
  next
    case (Some sa)
    obtain s as where "sa = (s, as)" by (cases sa)
    with Inr Some have c: "candidate bs t lt p = Inr (Some (s, as))" by simp
    from assms(1) have "patternLength p \<le> 10" by simp
    from candidate_score_le_1[OF c this] c show ?thesis by simp
  qed
qed

text \<open>The loops, as long as no exact literal phrase is met, keep the score below 1.\<close>

lemma tryPhrase_below_1:
  assumes "score b < 1" and "patternLength p < 10"
    and "getProperty (toLowerCase p) \<noteq> Inherited"
    and "\<not> (shapeOf p = LiteralPhrase \<and> toLowerCase p = lt)"
  shows "\<exists>b'. tryPhrase t lt cb b p = Inr b' \<and> score b' < 1"
proof (cases "candidate (score b) t lt p")
  case (Inl e)
  with candidate_no_error[OF assms(3)] show ?thesis by blast
next
  case (Inr r)
  show ?thesis
  proof (cases r)
    case None
    with Inr assms(1) show ?thesis by (simp add: tryPhrase_def)
  next
    case (Some sa)
    obtain s as where "sa = (s, as)" by (cases sa)
    with Inr Some have c: "candidate (score b) t lt p = Inr (Some (s, as))" by simp
    from candidate_below_1[OF c assms(2,4)] c assms(1) show ?thesis
      by (simp add: tryPhrase_def)
  qed
qed

lemma phraseLoop_below_1:
  assumes "score b < 1"
    and "\<And>p. p \<in> set ps \<Longrightarrow> patternLength p < 10 \<and> getProperty (toLowerCase p) \<noteq> Inherited
            \<and> \<not> (shapeOf p = LiteralPhrase \<and> toLowerCase p = lt)"
  shows "\<exists>b'. phraseLoop t lt cb b ps = Inr b' \<and> score b' < 1"
  using assms
proof (induction ps arbitrary: b)
  case Nil
  then show ?case by simp
next
  case (Cons p ps)
  from Cons.prems(2)[of p] tryPhrase_below_1[OF Cons.prems(1), of p lt t cb]
  obtain b1 where t: "tryPhrase t lt cb b p = Inr b1" and s: "score b1 < 1" by auto
  have "\<exists>b'. phraseLoop t lt cb b1 ps = Inr b' \<and> score b' < 1"
    by (rule Cons.IH[OF s]) (rule Cons.prems(2), simp)
  with t show ?case by simp
qed

lemma commandLoop_below_1:
  assumes "score b < 1"
    and "\<And>p. p \<in> set (allPhrases cmds) \<Longrightarrow> patternLength p < 10
            \<and> getProperty (toLowerCase p) \<noteq> Inherited
            \<and> \<not> (shapeOf p = LiteralPhrase \<and> toLowerCase p = lt)"
  shows "\<exists>b'. commandLoop t lt b cmds = Inr b' \<and> score b' < 1"
  using assms
proof (induction cmds arbitrary: b)
  case Nil
  then show ?case by simp
next
  case (Cons c cmds)
  have "\<exists>b'. phraseLoop t lt (commandCallback c) b (phrasesOf (command c)) = Inr b'
          \<and> score b' < 1"
    by (rule phraseLoop_below_1[OF Cons.prems(1)]) (rule Cons.prems(2), simp add: allPhrases_def)
  then obtain b1 where t: "phraseLoop t lt (commandCallback c) b (phrasesOf (command c)) = Inr b1"
    and s: "score b1 < 1" by auto
  have "\<exists>b'. commandLoop t lt b1 cmds = Inr b' \<and> score b' < 1"
    by (rule Cons.IH[OF s]) (rule Cons.prems(2), simp add: allPhrases_def)
  with t show ?case by simp
qed

text \<open>The phrases of the first command with an exact literal phrase.\<close>

lemma phraseLoop_exact:
  assumes "score b < 1 \<or> b = \<lparr>score = 1, callback = Some cb, args = []\<rparr>"
    and "\<And>p. p \<in> set ps \<Longrightarrow> patternLength p < 10 \<and> getProperty (toLowerCase p) \<noteq> Inherited"
    and "x \<in> set ps" and "shapeOf x = LiteralPhrase" and "toLowerCase x = lt"
  shows "phraseLoop t lt cb b ps = Inr \<lparr>score = 1, callback = Some cb, args = []\<rparr>"
  using assms(1,2,3)
proof (induction ps arbitrary: b)
  case Nil
  then show ?case by simp
next
  case (Cons p ps)
  let ?target = "\<lparr>score = 1, callback = Some cb, args = []\<rparr>"
  have rest: "patternLength q < 10 \<and> getProperty (toLowerCase q) \<noteq> Inherited"
    if "q \<in> set ps" for q
    using that Cons.prems(2)[of q] by simp
  have stay: "phraseLoop t lt cb ?target ps = Inr ?target"
  proof (rule phraseLoop_unchanged)
    fix q
    assume "q \<in> set ps"
    with rest candidate_at_most_1[of q "score ?target" t lt]
    show "candidate (score ?target) t lt q = Inr None
           \<or> (\<exists>s as. candidate (score ?target) t lt q = Inr (Some (s, as)) \<and> s \<le> score ?target)"
      by simp
  qed
  show ?case
  proof (cases "shapeOf p = LiteralPhrase \<and> toLowerCase p = lt")
    case True
    then have "candidate (score b) t lt p = Inr (Some (1, []))"
      by (simp add: candidate_exact)
    with Cons.prems(1) have "tryPhrase t lt cb b p = Inr ?target"
      by (auto simp: tryPhrase_def)
    with stay show ?thesis by simp
  next
    case False
    with Cons.prems(3) assms(4,5) have x: "x \<in> set ps" by auto
    from Cons.prems(2)[of p] have p: "patternLength p < 10"
      "getProperty (toLowerCase p) \<noteq> Inherited" by simp_all
    show ?thesis
    proof (cases "score b < 1")
      case True
      from tryPhrase_below_1[OF True p False, of t cb]
      obtain b1 where t: "tryPhrase t lt cb b p = Inr b1" and "score b1 < 1" by auto
      then have "phraseLoop t lt cb b1 ps = Inr ?target"
        using Cons.IH[of b1] rest x by simp
      with t show ?thesis by simp
    next
      case F: False
      with Cons.prems(1) have b: "b = ?target" by simp
      from candidate_at_most_1[OF p, of "score b" t lt]
      have "tryPhrase t lt cb b p = Inr b"
        by (intro tryPhrase_unchanged) (simp add: b)
      with stay b show ?thesis by simp
    qed
  qed
qed

text \<open>
  C3, as stated, fails: a prefix pattern with a prefix of more than ten characters scores
  above the exact literal match. Here the literal phrase equals the transcript and comes
  first, and the prefix pattern is resolved, with the score 1.02 and one argument.
\<close>

theorem exact_match_outscored:
  "candidate 0 ''take a photo now'' ''take a photo now'' ''take a photo now''
     = Inr (Some (1, []))
   \<and> findBestMatch [Command (Phrase ''take a photo now'') (1::nat),
                     Command (Phrase ''take a photo *'') 2] ''take a photo now''
     = Inr (Some \<lparr>score = 51 / 50, callback = Some 2, args = [''now'']\<rparr>)"
proof -
  have t: "processTranscript ''take a photo now'' = ''take a photo now''"
    by (simp add: processTranscript_def string_defs)
  have c1: "candidate bs ''take a photo now'' ''take a photo now'' ''take a photo now''
     = Inr (Some (1, []))" for bs
    by (simp add: candidate_def string_defs)
  have c2: "candidate bs ''take a photo now'' ''take a photo now'' ''take a photo *''
     = Inr (Some (51 / 50, [''now'']))" for bs
    by (simp add: candidate_def string_defs)
  show ?thesis
    by (simp add: findBestMatch_def bestMatchOf_def t tryPhrase_def c1 c2 initialBestMatch_def
        threshold_def)
qed

text \<open>
  C3, amended. A literal phrase whose lower-cased form equals the processed transcript
  scores exactly 1. If no prefix or suffix pattern of the list has a prefix or suffix of
  ten or more characters, and no phrase names an inherited property of the table object,
  then the matcher returns the score 1 with no arguments and the callback of the first
  command of the list that has such a phrase.
\<close>

theorem exact_match_wins:
  assumes "commands = pre @ c # post"
    and "x \<in> set (phrasesOf (command c))" and "shapeOf x = LiteralPhrase"
    and "toLowerCase x = processTranscript transcript"
    and "\<forall>p \<in> set (allPhrases pre).
           \<not> (shapeOf p = LiteralPhrase \<and> toLowerCase p = processTranscript transcript)"
    and "\<forall>p \<in> set (allPhrases commands).
           patternLength p < 10 \<and> getProperty (toLowerCase p) \<noteq> Inherited"
  shows "candidate bs transcript (processTranscript transcript) x = Inr (Some (1, []))
         \<and> findBestMatch commands transcript
           = Inr (Some \<lparr>score = 1, callback = Some (commandCallback c), args = []\<rparr>)"
proof -
  let ?lt = "processTranscript transcript"
  let ?target = "\<lparr>score = 1, callback = Some (commandCallback c), args = []\<rparr>"
  have parts: "set (allPhrases commands)
      = set (allPhrases pre) \<union> set (phrasesOf (command c)) \<union> set (allPhrases post)"
    by (auto simp: assms(1) allPhrases_def)
  have ok: "patternLength p < 10 \<and> getProperty (toLowerCase p) \<noteq> Inherited"
    if "p \<in> set (allPhrases pre) \<or> p \<in> set (phrasesOf (command c))
        \<or> p \<in> set (allPhrases post)" for p
    using that assms(6) unfolding parts by blast
  have "\<exists>b'. commandLoop transcript ?lt initialBestMatch pre = Inr b' \<and> score b' < 1"
  proof (rule commandLoop_below_1)
    show "score (initialBestMatch :: 'a BestMatch) < 1" by (simp add: initialBestMatch_def)
    fix p
    assume "p \<in> set (allPhrases pre)"
    with assms(5) ok[of p]
    show "patternLength p < 10 \<and> getProperty (toLowerCase p) \<noteq> Inherited
            \<and> \<not> (shapeOf p = LiteralPhrase \<and> toLowerCase p = ?lt)"
      by blast
  qed
  then obtain b1 where pre: "commandLoop transcript ?lt initialBestMatch pre = Inr b1"
    and b1: "score b1 < 1" by auto
  have mid: "phraseLoop transcript ?lt (commandCallback c) b1 (phrasesOf (command c)) = Inr ?target"
  proof (rule phraseLoop_exact[OF _ _ assms(2,3,4)])
    show "score b1 < 1 \<or> b1 = ?target" using b1 by simp
    fix p
    assume "p \<in> set (phrasesOf (command c))"
    with ok[of p]
    show "patternLength p < 10 \<and> getProperty (toLowerCase p) \<noteq> Inherited"
      by blast
  qed
  have post: "commandLoop transcript ?lt ?target post = Inr ?target"
  proof (rule commandLoop_unchanged)
    fix p
    assume "p \<in> set (allPhrases post)"
    with ok[of p] have "patternLength p < 10"
      "getProperty (toLowerCase p) \<noteq> Inherited"
      by blast+
    from candidate_at_most_1[OF this, of "score ?target" transcript ?lt]
    show "candidate (score ?target) transcript ?lt p = Inr None
           \<or> (\<exists>s as. candidate (score ?target) transcript ?lt p = Inr (Some (s, as))
                 \<and> s \<le> score ?target)"
      by simp
  qed
  from pre mid post have "bestMatchOf commands transcript = Inr ?target"
    by (simp add: bestMatchOf_def assms(1) commandLoop_append)
  then have "findBestMatch commands transcript = Inr (Some ?target)"
    by (simp add: findBestMatch_def threshold_def)
  with candidate_exact[OF assms(3,4)] show ?thesis by simp
qed

theorem exact_match_wins_witness:
  "shapeOf ''photo'' = LiteralPhrase \<and> toLowerCase ''photo'' = processTranscript ''Photo''
   \<and> patternLength ''*'' < 10 \<and> getProperty (toLowerCase ''*'') \<noteq> Inherited
   \<and> patternLength ''photo'' < 10 \<and> getProperty (toLowerCase ''photo'') \<noteq> Inherited
   \<and> patternLength ''photo *'' < 10 \<and> getProperty (toLowerCase ''photo *'') \<noteq> Inherited
   \<and> findBestMatch ([Command (Phrase ''*'') (4::nat)] @ Command (Phrase ''photo'') 1
                      # [Command (Phrase ''photo *'') 2]) ''Photo''
     = Inr (Some \<lparr>score = 1, callback = Some 1, args = []\<rparr>)"
proof -
  have s: "shapeOf ''photo'' = LiteralPhrase" "shapeOf ''*'' = UniversalWildcard"
    by (simp_all add: shapeOf_def string_defs)
  have t: "toLowerCase ''photo'' = processTranscript ''Photo''"
    by (simp add: processTranscript_def string_defs)
  have l: "patternLength ''*'' < 10" "patternLength ''photo'' < 10"
    "patternLength ''photo *'' < 10"
    by (simp_all add: patternLength_def shapeOf_def string_defs)
  have g: "getProperty (toLowerCase ''*'') \<noteq> Inherited"
    "getProperty (toLowerCase ''photo'') \<noteq> Inherited"
    "getProperty (toLowerCase ''photo *'') \<noteq> Inherited"
    by (simp_all add: getProperty_Inherited_iff objectPrototypeNames_def string_defs)
  have a2: "''photo'' \<in> set (phrasesOf (command (Command (Phrase ''photo'') (1::nat))))"
    by simp
  have a5: "\<forall>p \<in> set (allPhrases [Command (Phrase ''*'') (4::nat)]).
           \<not> (shapeOf p = LiteralPhrase \<and> toLowerCase p = processTranscript ''Photo'')"
    using s by (simp add: allPhrases_def)
  have a6: "\<forall>p \<in> set (allPhrases ([Command (Phrase ''*'') (4::nat)] @ Command (Phrase ''photo'') 1
                      # [Command (Phrase ''photo *'') 2])).
           patternLength p < 10 \<and> getProperty (toLowerCase p) \<noteq> Inherited"
    using l g by (simp add: allPhrases_def)
  from exact_match_wins[OF refl a2 s(1) t a5 a6]
  have r: "findBestMatch ([Command (Phrase ''*'') (4::nat)] @ Command (Phrase ''photo'') 1
                      # [Command (Phrase ''photo *'') 2]) ''Photo''
     = Inr (Some \<lparr>score = 1, callback = Some 1, args = []\<rparr>)"
    by simp
  show ?thesis by (intro conjI) (fact s(1) t l g r)+
qed

subsection \<open>Suffix patterns\<close>

text \<open>
  The candidate of a suffix pattern: it matches exactly when the transcript ends with the
  suffix. The phonetic test of this branch looks the whole phrase up, asterisk included,
  and no word of the table starts with an asterisk.
\<close>

lemma candidate_suffix:
  assumes "shapeOf p = SuffixPattern"
  shows "candidate bs t lt p =
     (if endsWith lt (trim (drop 1 (toLowerCase p)))
      then Inr (Some (9 / 10 + of_nat (patternLength p) / 100,
                      [trim (substringTo t (lastIndexOf lt (last (splitSpaces lt))))]))
      else Inr None)"
proof -
  from assms have "toLowerCase p \<noteq> ''*''" "\<not> endsWith (toLowerCase p) ''*''"
    "startsWith (toLowerCase p) ''*''"
    unfolding shapeOf_def by (auto simp: Let_def split: if_splits)
  with assms show ?thesis
    by (simp add: candidate_def Let_def suffixIsMatch_endsWith patternLength_def)
qed

text \<open>
  C4. The claim lets a suffix pattern match also when the last word of the transcript is
  phonetically confusable with the suffix, and the source has a branch for it. The branch
  never fires: with the suffix pattern \<open>* end\<close> and the transcript \<open>story and\<close>,
  whose last word \<open>and\<close> is listed in the table as confusable with \<open>end\<close>, the
  matcher finds no match.
\<close>

theorem suffix_phonetic_no_match:
  "findBestMatch [Command (Phrase ''* end'') cb] ''story and'' = Inr None"
proof -
  have "shapeOf ''* end'' = SuffixPattern"
    by (simp add: shapeOf_def string_defs)
  then have "candidate 0 ''story and'' ''story and'' ''* end'' = Inr None"
    by (simp add: candidate_suffix string_defs)
  moreover have "processTranscript ''story and'' = ''story and''"
    by (simp add: processTranscript_def string_defs)
  ultimately show ?thesis by (simp add: findBestMatch_single)
qed

subsection \<open>The doubled word\<close>

lemma splitSpaces_not_Nil: "splitSpaces s \<noteq> []"
  by (induction s) (auto split: list.splits)

lemma splitSpaces_single: "CHR '' '' \<notin> set w \<Longrightarrow> splitSpaces w = [w]"
  by (induction w) auto

lemma splitSpaces_singleD: "splitSpaces s = [w] \<Longrightarrow> s = w \<and> CHR '' '' \<notin> set w"
proof (induction s arbitrary: w)
  case Nil
  then show ?case by simp
next
  case (Cons c cs)
  show ?case
  proof (cases "c = CHR '' ''")
    case True
    with Cons.prems splitSpaces_not_Nil[of cs] show ?thesis by simp
  next
    case False
    with Cons.prems splitSpaces_not_Nil[of cs]
    obtain v where "splitSpaces cs = [v]" and "w = c # v"
      by (auto split: list.splits)
    with Cons.IH[of v] False show ?thesis by simp
  qed
qed

lemma splitSpaces_twoD:
  "splitSpaces s = [a, b] \<Longrightarrow> s = a @ CHR '' '' # b \<and> CHR '' '' \<notin> set a \<and> CHR '' '' \<notin> set b"
proof (induction s arbitrary: a)
  case Nil
  then show ?case by simp
next
  case (Cons c cs)
  show ?case
  proof (cases "c = CHR '' ''")
    case True
    with Cons.prems have "a = []" and "splitSpaces cs = [b]" by simp_all
    with splitSpaces_singleD[of cs b] True show ?thesis by simp
  next
    case False
    with Cons.prems splitSpaces_not_Nil[of cs]
    obtain v where "splitSpaces cs = [v, b]" and "a = c # v"
      by (auto split: list.splits)
    with Cons.IH[of v] False show ?thesis by simp
  qed
qed

text \<open>A trimmed string neither starts nor ends with white space.\<close>

lemma dropWhile_hd: "dropWhile P xs \<noteq> [] \<Longrightarrow> \<not> P (hd (dropWhile P xs))"
  using hd_dropWhile by blast

lemma dropWhile_last: "dropWhile P xs \<noteq> [] \<Longrightarrow> last (dropWhile P xs) = last xs"
  by (induction xs) (auto split: if_splits)

lemma trim_ends:
  assumes "trim x \<noteq> []"
  shows "\<not> isWhiteSpace (hd (trim x))" and "\<not> isWhiteSpace (last (trim x))"
proof -
  let ?y = "dropWhile isWhiteSpace x"
  let ?z = "dropWhile isWhiteSpace (rev ?y)"
  from assms have z: "?z \<noteq> []" by (simp add: trim_def)
  have y: "?y \<noteq> []"
  proof
    assume "?y = []"
    with z show False by simp
  qed
  from z have "\<not> isWhiteSpace (hd ?z)" by (rule dropWhile_hd)
  with z show "\<not> isWhiteSpace (last (trim x))" by (simp add: trim_def last_rev)
  from z have "last ?z = last (rev ?y)" by (rule dropWhile_last)
  with y have "last ?z = hd ?y" by (simp add: last_rev)
  moreover from y have "\<not> isWhiteSpace (hd ?y)" by (rule dropWhile_hd)
  ultimately show "\<not> isWhiteSpace (hd (trim x))" using z by (simp add: trim_def hd_rev)
qed

lemma trim_id:
  assumes "x \<noteq> []" and "\<not> isWhiteSpace (hd x)" and "\<not> isWhiteSpace (last x)"
  shows "trim x = x"
proof -
  from assms(1,2) have "dropWhile isWhiteSpace x = x" by (cases x) simp_all
  moreover from assms(1,3) have "dropWhile isWhiteSpace (rev x) = rev x"
    by (cases "rev x") (simp_all add: last_rev[symmetric] hd_rev)
  ultimately show ?thesis by (simp add: trim_def)
qed

lemma set_trim: "c \<in> set (trim x) \<Longrightarrow> c \<in> set x"
  by (auto simp: trim_def dest!: set_dropWhileD)

lemma toLowerChar_idem: "toLowerChar (toLowerChar c) = toLowerChar c"
proof -
  have "of_char c < (256::nat)" by simp
  then show ?thesis
    by (auto simp: toLowerChar_def Let_def)
qed

text \<open>A transcript of two equal words is processed to the single word, and so is the word.\<close>

lemma doubled_word:
  assumes "splitSpaces (trim (toLowerCase t)) = [w, w]"
  shows "processTranscript t = w" and "processTranscript w = w" and "splitSpaces w = [w]"
proof -
  let ?s = "trim (toLowerCase t)"
  from assms show "processTranscript t = w" by (simp add: processTranscript_def)
  from splitSpaces_twoD[OF assms] have s: "?s = w @ CHR '' '' # w"
    and sp: "CHR '' '' \<notin> set w" by simp_all
  from sp show single: "splitSpaces w = [w]" by (rule splitSpaces_single)
  from s have ne: "?s \<noteq> []" by simp
  have w: "w \<noteq> []"
  proof
    assume "w = []"
    with s trim_ends(1)[OF ne] show False by (simp add: isWhiteSpace_def)
  qed
  with s trim_ends[OF ne] have "\<not> isWhiteSpace (hd w)" "\<not> isWhiteSpace (last w)"
    by simp_all
  with w have tr: "trim w = w" by (rule trim_id)
  have "set w \<subseteq> set (toLowerCase t)"
    using set_trim[of _ "toLowerCase t"] s by auto
  then have "\<forall>c \<in> set w. toLowerChar c = c"
    by (auto simp: toLowerCase_def toLowerChar_idem)
  then have "toLowerCase w = w" by (simp add: toLowerCase_def map_idI)
  with tr single show "processTranscript w = w" by (simp add: processTranscript_def)
qed

text \<open>The loops depend on the raw transcript only through the candidates.\<close>

lemma phraseLoop_cong:
  assumes "\<And>p bs. p \<in> set ps \<Longrightarrow> candidate bs t lt p = candidate bs t' lt p"
  shows "phraseLoop t lt cb b ps = phraseLoop t' lt cb b ps"
  using assms
proof (induction ps arbitrary: b)
  case Nil
  then show ?case by simp
next
  case (Cons p ps)
  have "tryPhrase t lt cb b p = tryPhrase t' lt cb b p"
    by (simp add: tryPhrase_def Cons.prems)
  moreover have "phraseLoop t lt cb b' ps = phraseLoop t' lt cb b' ps" for b'
    by (rule Cons.IH) (simp add: Cons.prems)
  ultimately show ?case by (simp split: sum.splits)
qed

lemma commandLoop_cong:
  assumes "\<And>p bs. p \<in> set (allPhrases cmds) \<Longrightarrow> candidate bs t lt p = candidate bs t' lt p"
  shows "commandLoop t lt b cmds = commandLoop t' lt b cmds"
  using assms
proof (induction cmds arbitrary: b)
  case Nil
  then show ?case by simp
next
  case (Cons c cmds)
  have "phraseLoop t lt (commandCallback c) b (phrasesOf (command c))
        = phraseLoop t' lt (commandCallback c) b (phrasesOf (command c))"
    by (rule phraseLoop_cong) (rule Cons.prems, simp add: allPhrases_def)
  moreover have "commandLoop t lt b' cmds = commandLoop t' lt b' cmds" for b'
    by (rule Cons.IH) (rule Cons.prems, simp add: allPhrases_def)
  ultimately show ?case by (simp split: sum.splits)
qed

lemma candidate_literal_transcript:
  assumes "shapeOf p = LiteralPhrase"
  shows "candidate bs t lt p = candidate bs t' lt p"
proof -
  from assms have "toLowerCase p \<noteq> ''*''" "\<not> endsWith (toLowerCase p) ''*''"
    "\<not> startsWith (toLowerCase p) ''*''"
    unfolding shapeOf_def by (auto simp: Let_def split: if_splits)
  then show ?thesis by (simp add: candidate_def Let_def)
qed

lemma lastIndexOf_self: "lastIndexOf w w = 0"
  by (simp add: lastIndexOf_def startsWith_def)

text \<open>
  C5, as stated, fails: the argument of a universal wildcard is the raw transcript, in
  which the doubled word is not collapsed.
\<close>

theorem doubled_word_wildcard_differs:
  "findBestMatch [Command (Phrase ''*'') (0::nat)] ''photo photo''
     = Inr (Some \<lparr>score = 81 / 100, callback = Some 0, args = [''photo photo'']\<rparr>)
   \<and> findBestMatch [Command (Phrase ''*'') (0::nat)] ''photo''
     = Inr (Some \<lparr>score = 81 / 100, callback = Some 0, args = [''photo'']\<rparr>)
   \<and> [''photo photo''] \<noteq> [''photo'']"
  by (simp add: findBestMatch_single processTranscript_def candidate_def string_defs)

text \<open>
  C5, amended. For a transcript that, lower-cased and trimmed, consists of two equal words,
  and a command list of literal phrases and suffix patterns only, the matcher behaves as
  on the single word: same command, same score, same arguments (or the same failure).
\<close>

theorem doubled_word_collapse:
  assumes "splitSpaces (trim (toLowerCase transcript)) = [w, w]"
    and "\<forall>p \<in> set (allPhrases commands). shapeOf p = LiteralPhrase \<or> shapeOf p = SuffixPattern"
  shows "findBestMatch commands transcript = findBestMatch commands w"
proof -
  note d = doubled_word[OF assms(1)]
  have "commandLoop transcript w initialBestMatch commands
        = commandLoop w w initialBestMatch commands"
  proof (rule commandLoop_cong)
    fix p bs
    assume "p \<in> set (allPhrases commands)"
    with assms(2) consider "shapeOf p = LiteralPhrase" | "shapeOf p = SuffixPattern" by blast
    then show "candidate bs transcript w p = candidate bs w w p"
    proof cases
      case 1
      then show ?thesis by (rule candidate_literal_transcript)
    next
      case 2
      then show ?thesis
        by (simp add: candidate_suffix d(3) lastIndexOf_self substringTo_def)
    qed
  qed
  then show ?thesis by (simp add: findBestMatch_def bestMatchOf_def d)
qed

theorem doubled_word_collapse_witness:
  "splitSpaces (trim (toLowerCase ''Photo Photo'')) = [''photo'', ''photo'']
   \<and> shapeOf ''photo'' = LiteralPhrase \<and> shapeOf ''* end'' = SuffixPattern
   \<and> findBestMatch [Command (Phrases [''photo'', ''* end'']) (1::nat)] ''Photo Photo''
     = findBestMatch [Command (Phrases [''photo'', ''* end'']) (1::nat)] ''photo''"
proof -
  have s: "splitSpaces (trim (toLowerCase ''Photo Photo'')) = [''photo'', ''photo'']"
    by (simp add: string_defs)
  have p: "shapeOf ''photo'' = LiteralPhrase" "shapeOf ''* end'' = SuffixPattern"
    by (simp_all add: shapeOf_def string_defs)
  then have a: "\<forall>p \<in> set (allPhrases [Command (Phrases [''photo'', ''* end'']) (1::nat)]).
      shapeOf p = LiteralPhrase \<or> shapeOf p = SuffixPattern"
    by (simp add: allPhrases_def)
  from doubled_word_collapse[OF s a] s p show ?thesis by blast
qed

subsection \<open>The empty transcript\<close>

lemma toLowerChar_white: "isWhiteSpace c \<Longrightarrow> toLowerChar c = c"
  by (auto simp: isWhiteSpace_def toLowerChar_def)

lemma trim_white:
  assumes "\<forall>c \<in> set t. isWhiteSpace c"
  shows "trim t = []" and "trim (toLowerCase t) = []"
proof -
  from assms have d: "dropWhile isWhiteSpace t = []" by simp
  show "trim t = []" unfolding trim_def d by simp
  from assms have "toLowerCase t = t"
    by (simp add: toLowerCase_def toLowerChar_white map_idI)
  with \<open>trim t = []\<close> show "trim (toLowerCase t) = []" by simp
qed

lemma literalIsMatch_transcript_outside:
  assumes "lt \<notin> set vocabulary" and "getProperty lp \<noteq> Inherited"
  shows "literalIsMatch lt lp = Inr False"
proof -
  have no: "soundsSimilar w lt = Inr False" if "w \<in> set vocabulary" for w
    using that assms(1) by (rule soundsSimilar_outside)
  have "\<not> (\<exists>ws. getProperty lp = Words ws \<and> (\<exists>w \<in> set ws. soundsSimilar w lt = Inr True))"
    using no by (auto simp: getProperty_Words_iff dest: in_vocabulary)
  with phraseListMatch_value[OF assms(2), of lt]
  have first: "phraseListMatch lt lp = Inr False" by simp
  from mainCommandMatch_cases[of lt lp] no
  have second: "mainCommandMatch lt lp = Inr False" by auto
  show ?thesis by (simp add: literalIsMatch_def first second)
qed

text \<open>On an empty transcript a phrase scores at most 0, unless it is a universal wildcard,
  a suffix pattern with an empty suffix or an empty literal phrase.\<close>

lemma candidate_empty:
  assumes "trim t = []"
    and "shapeOf p \<noteq> UniversalWildcard" and "toLowerCase p \<noteq> []"
    and "shapeOf p = SuffixPattern \<longrightarrow> patternLength p \<noteq> 0"
    and "getProperty (toLowerCase p) \<noteq> Inherited"
  shows "candidate bs t [] p = Inr None \<or> candidate bs t [] p = Inr (Some (0, []))"
proof (cases "shapeOf p")
  case UniversalWildcard
  with assms(2) show ?thesis by simp
next
  case PrefixPattern
  then have "toLowerCase p \<noteq> ''*''" "endsWith (toLowerCase p) ''*''"
    unfolding shapeOf_def by (auto simp: Let_def split: if_splits)
  with assms(1) show ?thesis
    by (auto simp: candidate_def Let_def startsWith_def substringFrom_def)
next
  case SuffixPattern
  with assms(4) have "\<not> endsWith [] (trim (drop 1 (toLowerCase p)))"
    by (simp add: patternLength_def endsWith_def)
  with SuffixPattern show ?thesis by (simp add: candidate_suffix)
next
  case LiteralPhrase
  then have sh: "toLowerCase p \<noteq> ''*''" "\<not> endsWith (toLowerCase p) ''*''"
    "\<not> startsWith (toLowerCase p) ''*''"
    unfolding shapeOf_def by (auto simp: Let_def split: if_splits)
  have "[] \<notin> set vocabulary"
    using vocabulary_words by (auto simp: list_all_iff)
  then have "literalIsMatch [] (toLowerCase p) = Inr False"
    using assms(5) by (rule literalIsMatch_transcript_outside)
  with sh assms(3) have "candidate bs t [] p = Inr (Some (0, []))"
    by (simp add: candidate_def Let_def levenshtein_def)
  then show ?thesis by simp
qed

text \<open>
  C6, as stated, fails: the matcher has no short cut for an empty transcript, and a
  universal wildcard accepts it.
\<close>

theorem empty_transcript_matches_wildcard:
  "findBestMatch [Command (Phrase ''*'') (0::nat)] ''''
     = Inr (Some \<lparr>score = 81 / 100, callback = Some 0, args = ['''']\<rparr>)"
  by (simp add: findBestMatch_single processTranscript_def candidate_def string_defs)

text \<open>
  C6, amended. On an empty or white-space-only transcript the matcher still scores every
  phrase. It returns null when the command list holds no universal wildcard, no suffix
  pattern with an empty suffix, no empty literal phrase and no literal phrase that names
  an inherited property of the table object.
\<close>

theorem empty_transcript_no_match:
  assumes "\<forall>c \<in> set transcript. isWhiteSpace c"
    and "\<forall>p \<in> set (allPhrases commands).
           shapeOf p \<noteq> UniversalWildcard \<and> toLowerCase p \<noteq> [] \<and>
           (shapeOf p = SuffixPattern \<longrightarrow> patternLength p \<noteq> 0) \<and>
           getProperty (toLowerCase p) \<noteq> Inherited"
  shows "findBestMatch commands transcript = Inr None"
proof -
  from trim_white[OF assms(1)] have t: "trim transcript = []"
    and lt: "processTranscript transcript = []"
    by (simp_all add: processTranscript_def)
  have "commandLoop transcript [] initialBestMatch commands = Inr initialBestMatch"
  proof (rule commandLoop_unchanged)
    fix p
    assume "p \<in> set (allPhrases commands)"
    with assms(2) candidate_empty[OF t, of p "score initialBestMatch"]
    show "candidate (score initialBestMatch) transcript [] p = Inr None
           \<or> (\<exists>s as. candidate (score initialBestMatch) transcript [] p = Inr (Some (s, as))
                 \<and> s \<le> score initialBestMatch)"
      by (auto simp: initialBestMatch_def)
  qed
  then show ?thesis
    by (simp add: findBestMatch_def bestMatchOf_def lt initialBestMatch_def threshold_def)
qed

theorem empty_transcript_no_match_witness:
  "isWhiteSpace CHR '' ''
   \<and> shapeOf ''photo'' = LiteralPhrase \<and> toLowerCase ''photo'' \<noteq> []
   \<and> getProperty (toLowerCase ''photo'') \<noteq> Inherited
   \<and> shapeOf ''photo *'' = PrefixPattern \<and> toLowerCase ''photo *'' \<noteq> []
   \<and> getProperty (toLowerCase ''photo *'') \<noteq> Inherited
   \<and> findBestMatch [Command (Phrases [''photo'', ''photo *'']) (1::nat)] ''  '' = Inr None"
proof -
  have w: "isWhiteSpace CHR '' ''" by (simp add: isWhiteSpace_def)
  have p1: "shapeOf ''photo'' = LiteralPhrase" "toLowerCase ''photo'' \<noteq> []"
    and p2: "shapeOf ''photo *'' = PrefixPattern" "toLowerCase ''photo *'' \<noteq> []"
    by (simp_all add: shapeOf_def string_defs)
  have g1: "getProperty (toLowerCase ''photo'') \<noteq> Inherited"
    and g2: "getProperty (toLowerCase ''photo *'') \<noteq> Inherited"
    by (simp_all add: getProperty_Inherited_iff objectPrototypeNames_def string_defs)
  have a1: "\<forall>c \<in> set ''  ''. isWhiteSpace c" using w by simp
  have a2: "\<forall>p \<in> set (allPhrases [Command (Phrases [''photo'', ''photo *'']) (1::nat)]).
           shapeOf p \<noteq> UniversalWildcard \<and> toLowerCase p \<noteq> [] \<and>
           (shapeOf p = SuffixPattern \<longrightarrow> patternLength p \<noteq> 0) \<and>
           getProperty (toLowerCase p) \<noteq> Inherited"
    using p1 p2 g1 g2 by (simp add: allPhrases_def)
  from empty_transcript_no_match[OF a1 a2] w p1 p2 g1 g2 show ?thesis by blast
qed

subsection \<open>The range of a score\<close>

text \<open>
  C7, as stated, fails: a prefix pattern with a prefix of more than ten characters
  scores above 1. Here the prefix \<open>take a photo\<close> has twelve characters and the result
  has the score 1.02.
\<close>

theorem score_above_one:
  "findBestMatch [Command (Phrase ''take a photo *'') (0::nat)] ''take a photo now''
     = Inr (Some \<lparr>score = 51 / 50, callback = Some 0, args = [''now'']\<rparr>)
   \<and> \<not> (51 / 50 \<le> (1::rat))"
  by (simp add: findBestMatch_single processTranscript_def candidate_def string_defs Let_def)

text \<open>
  C7, amended. If the matcher returns a result and no prefix or suffix pattern of the
  command list has a prefix or suffix of more than ten characters, the score of the
  result lies between 0.7 and 1.
\<close>

theorem score_bounds:
  assumes "findBestMatch commands transcript = Inr (Some r)"
    and "\<forall>p \<in> set (allPhrases commands). patternLength p \<le> 10"
  shows "7 / 10 \<le> score r \<and> score r \<le> 1"
proof -
  from assms(1) have best: "bestMatchOf commands transcript = Inr r"
    and thr: "7 / 10 \<le> score r"
    unfolding findBestMatch_def threshold_def by (auto split: sum.splits if_splits)
  have "score r \<le> 1"
  proof (rule commandLoop_invariant[where I = "\<lambda>b. score b \<le> 1", OF best[unfolded bestMatchOf_def]])
    show "score (initialBestMatch :: 'a BestMatch) \<le> 1" by (simp add: initialBestMatch_def)
  next
    fix c p and b :: "'a BestMatch" and s as
    assume "c \<in> set commands" "p \<in> set (phrasesOf (command c))"
      and cand: "candidate (score b) transcript (processTranscript transcript) p = Inr (Some (s, as))"
    then have "patternLength p \<le> 10" using assms(2) mem_allPhrases by blast
    from candidate_score_le_1[OF cand this]
    show "score \<lparr>score = s, callback = Some (commandCallback c), args = as\<rparr> \<le> 1" by simp
  qed
  with thr show ?thesis by simp
qed

theorem score_bounds_witness:
  "findBestMatch [Command (Phrase ''photo *'') (2::nat)] ''photo in 5''
     = Inr (Some \<lparr>score = 19 / 20, callback = Some 2, args = [''in 5'']\<rparr>)
   \<and> patternLength ''photo *'' \<le> 10
   \<and> 7 / 10 \<le> score \<lparr>score = 19 / 20, callback = Some (2::nat), args = [''in 5'']\<rparr>
   \<and> score \<lparr>score = 19 / 20, callback = Some (2::nat), args = [''in 5'']\<rparr> \<le> 1"
proof -
  have h: "findBestMatch [Command (Phrase ''photo *'') (2::nat)] ''photo in 5''
     = Inr (Some \<lparr>score = 19 / 20, callback = Some 2, args = [''in 5'']\<rparr>)"
    by (simp add: findBestMatch_single processTranscript_def candidate_def string_defs Let_def)
  have l: "patternLength ''photo *'' \<le> 10"
    by (simp add: patternLength_def shapeOf_def string_defs)
  then have a: "\<forall>p \<in> set (allPhrases [Command (Phrase ''photo *'') (2::nat)]). patternLength p \<le> 10"
    by (simp add: allPhrases_def)
  from score_bounds[OF h a] h l show ?thesis by blast
qed

subsection \<open>Symmetry of the phonetic test\<close>

text \<open>
  C8. The phonetic test is symmetric: \<open>soundsSimilar\<close> succeeds (returns true) for a
  word against another exactly when it succeeds for the second against the first. When
  neither word names an inherited property of the table object, for which the lookup
  raises, the two calls return the same value.
\<close>

theorem soundsSimilar_symmetric:
  "(soundsSimilar a b = Inr True \<longleftrightarrow> soundsSimilar b a = Inr True)
   \<and> (getProperty a \<noteq> Inherited \<and> getProperty b \<noteq> Inherited
        \<longrightarrow> soundsSimilar a b = soundsSimilar b a)"
proof -
  have sym: "soundsSimilar a b = Inr True \<longleftrightarrow> soundsSimilar b a = Inr True"
    using soundsSimilar_True_sym by blast
  have "soundsSimilar a b = soundsSimilar b a"
    if "getProperty a \<noteq> Inherited" and "getProperty b \<noteq> Inherited"
  proof -
    from that obtain x y where x: "soundsSimilar a b = Inr x" and y: "soundsSimilar b a = Inr y"
      using soundsSimilar_no_error by (metis sum.exhaust)
    with sym have "x = y" by auto
    with x y show ?thesis by simp
  qed
  with sym show ?thesis by blast
qed

theorem soundsSimilar_symmetric_witness:
  "getProperty ''photo'' \<noteq> Inherited \<and> getProperty ''foto'' \<noteq> Inherited
   \<and> soundsSimilar ''photo'' ''foto'' = Inr True
   \<and> soundsSimilar ''foto'' ''photo'' = Inr True"
proof -
  have g: "getProperty ''photo'' = Words [''photo'', ''foto'', ''shot'', ''pot'', ''plot'',
      ''pro'', ''show'', ''goes'', ''those'', ''close'', ''flows'']"
    by (simp add: getProperty_def phoneticSimilarWordsMap_def)
  then have p: "getProperty ''photo'' \<noteq> Inherited" by simp
  have "''foto'' \<in> set vocabulary"
    using g by (auto simp: getProperty_Words_iff intro: in_vocabulary)
  then have f: "getProperty ''foto'' \<noteq> Inherited" by (rule vocabulary_not_Inherited)
  have a: "soundsSimilar ''photo'' ''foto'' = Inr True"
    by (simp add: soundsSimilar_def includesAt_def g)
  with soundsSimilar_symmetric[of "''photo''" "''foto''"]
  have b: "soundsSimilar ''foto'' ''photo'' = Inr True" by simp
  show ?thesis by (intro conjI) (fact p f a b)+
qed

subsection \<open>The shape of a result\<close>

text \<open>
  C10. Every result of the matcher carries a callback, has a score of at least 0.7 and at
  most one argument. It is the candidate of a phrase of a command of the list, with the
  callback of that command; the candidate of a literal phrase has no argument, the
  candidate of a universal wildcard, a prefix pattern or a suffix pattern has exactly one.
\<close>

theorem result_shape:
  assumes "findBestMatch commands transcript = Inr (Some r)"
  shows "callback r \<noteq> None \<and> 7 / 10 \<le> score r \<and> length (args r) \<le> 1 \<and>
         (\<exists>c \<in> set commands. \<exists>p \<in> set (phrasesOf (command c)). \<exists>bs.
            callback r = Some (commandCallback c) \<and>
            candidate bs transcript (processTranscript transcript) p
              = Inr (Some (score r, args r)) \<and>
            (if shapeOf p = LiteralPhrase then args r = [] else length (args r) = 1))"
proof -
  let ?I = "\<lambda>b. callback b = None \<or>
      (\<exists>c \<in> set commands. \<exists>p \<in> set (phrasesOf (command c)). \<exists>bs.
         callback b = Some (commandCallback c) \<and>
         candidate bs transcript (processTranscript transcript) p
           = Inr (Some (score b, args b)))"
  from assms have best: "bestMatchOf commands transcript = Inr r"
    and thr: "7 / 10 \<le> score r" and cb: "callback r \<noteq> None"
    unfolding findBestMatch_def threshold_def by (auto split: sum.splits if_splits)
  have "?I r"
  proof (rule commandLoop_invariant[where I = ?I, OF best[unfolded bestMatchOf_def]])
    show "?I initialBestMatch" by (simp add: initialBestMatch_def)
  next
    fix c p and b :: "'a BestMatch" and s as
    assume "c \<in> set commands" "p \<in> set (phrasesOf (command c))"
      "candidate (score b) transcript (processTranscript transcript) p = Inr (Some (s, as))"
    then show "?I \<lparr>score = s, callback = Some (commandCallback c), args = as\<rparr>"
      by auto
  qed
  with cb obtain c p bs where c: "c \<in> set commands" and p: "p \<in> set (phrasesOf (command c))"
    and r: "callback r = Some (commandCallback c)"
    and cand: "candidate bs transcript (processTranscript transcript) p
                 = Inr (Some (score r, args r))"
    by auto
  from candidate_args[OF cand]
  have shape: "if shapeOf p = LiteralPhrase then args r = [] else length (args r) = 1" .
  then have "length (args r) \<le> 1" by (auto split: if_splits)
  with cb thr c p r cand shape show ?thesis by blast
qed

theorem result_shape_witness:
  "findBestMatch [Command (Phrase ''photo *'') (2::nat)] ''photo in 5''
     = Inr (Some \<lparr>score = 19 / 20, callback = Some 2, args = [''in 5'']\<rparr>)
   \<and> callback \<lparr>score = 19 / 20, callback = Some (2::nat), args = [''in 5'']\<rparr> \<noteq> None
   \<and> 7 / 10 \<le> score \<lparr>score = 19 / 20, callback = Some (2::nat), args = [''in 5'']\<rparr>
   \<and> length (args \<lparr>score = 19 / 20, callback = Some (2::nat), args = [''in 5'']\<rparr>) \<le> 1"
proof -
  have h: "findBestMatch [Command (Phrase ''photo *'') (2::nat)] ''photo in 5''
     = Inr (Some \<lparr>score = 19 / 20, callback = Some 2, args = [''in 5'']\<rparr>)"
    by (simp add: findBestMatch_single processTranscript_def candidate_def string_defs Let_def)
  from result_shape[OF h] h show ?thesis by blast
qed


end
